theory Spec2Isabelle
  imports Main "HOL-Library.Word"
begin

section \<open>Bootstrap of the loader: data model\<close>

text \<open>
  Pointers and \<^verbatim>\<open>uintptr_t\<close> are 64-bit words (LP64); pointer arithmetic wraps.
  Memory is a store of pointer-sized slots, keyed by the address of the slot.
\<close>

type_synonym addr = "64 word"
type_synonym vm_prot = "32 word"

definition VM_PROT_READ :: vm_prot where
  "VM_PROT_READ = 1"

definition VM_PROT_WRITE :: vm_prot where
  "VM_PROT_WRITE = 2"

definition writable :: "vm_prot \<Rightarrow> bool" where
  "writable p = (and p VM_PROT_WRITE \<noteq> 0)"

text \<open>
  Everything the bootstrap does that can be seen from outside is logged, in program order.
  \<open>EnterRebaseDyld\<close> marks a call of \<^verbatim>\<open>rebaseDyld\<close>; \<open>FixupAllChainedFixups\<close>
  records the slide and the number of bind targets handed to the fixup application.
\<close>

datatype event =
    KdebugTrace
  | EnterRebaseDyld addr
  | FixupAllChainedFixups addr nat
  | WriteSlot addr addr
  | MachInit
  | Mprotect addr addr vm_prot
  | WriteGlobal string addr
  | ReadGlobal string
  | GuardSetup nat
  | SyncProcessInfo
  | CallMain addr addr

record machine =
  mem :: "addr \<Rightarrow> addr"
  prot :: "addr \<Rightarrow> vm_prot"
  globals :: "string \<Rightarrow> addr"
  trace :: "event list"

definition emit :: "event \<Rightarrow> machine \<Rightarrow> machine" where
  "emit e st = st\<lparr>trace := trace st @ [e]\<rparr>"

subsection \<open>Fixup chains\<close>

datatype failure =
    MalformedFixupChain
  | DependencyNotFound
  | IncompatibleDependency
  | CyclicUnloadableDependency
  | UnresolvedSymbol nat addr
  | MappingFailure
  | InitializerFailure

datatype fixup_kind = Rebase addr | Bind nat addr

record slot_descriptor =
  slot_offset :: addr
  slot_kind :: fixup_kind

text \<open>A pointer-sized slot at offset \<open>off\<close> lies within a segment of \<open>extent\<close> bytes.\<close>

definition slot_in_segment :: "addr \<Rightarrow> addr \<Rightarrow> bool" where
  "slot_in_segment extent off = (unat off + 8 \<le> unat extent)"

text \<open>
  Modelled from the spec: the Fixup Chain Decoder (\<^verbatim>\<open>MachOLoaded::fixupAllChainedFixups\<close>
  and the chain walk below it are not among the sources). One entry resolves to the pair of
  its slot offset and the pointer to store there. A slot offset outside the segment and an
  ordinal outside the external-symbol table are rejected with \<open>MalformedFixupChain\<close>;
  a symbol that cannot be resolved gives \<open>UnresolvedSymbol\<close> with the ordinal and the
  requesting slot.
\<close>

definition resolve_entry ::
  "addr \<Rightarrow> addr \<Rightarrow> 's list \<Rightarrow> ('s \<Rightarrow> addr option) \<Rightarrow> slot_descriptor \<Rightarrow> failure + (addr \<times> addr)" where
  "resolve_entry extent slide symtab resolver d =
     (if \<not> slot_in_segment extent (slot_offset d) then Inl MalformedFixupChain
      else case slot_kind d of
          Rebase target \<Rightarrow> Inr (slot_offset d, target + slide)
        | Bind ordinal addend \<Rightarrow>
            if length symtab \<le> ordinal then Inl MalformedFixupChain
            else (case resolver (symtab ! ordinal) of
                    None \<Rightarrow> Inl (UnresolvedSymbol ordinal (slot_offset d))
                  | Some e \<Rightarrow> Inr (slot_offset d, e + addend)))"

text \<open>
  Modelled from the spec: decoding a chain gives the sequence of resolved slot operations,
  in chain order, or the first failure.
\<close>

fun decode_chain ::
  "addr \<Rightarrow> addr \<Rightarrow> 's list \<Rightarrow> ('s \<Rightarrow> addr option) \<Rightarrow> slot_descriptor list
     \<Rightarrow> failure + (addr \<times> addr) list" where
  "decode_chain extent slide symtab resolver [] = Inr []"
| "decode_chain extent slide symtab resolver (d # ds) =
     (case resolve_entry extent slide symtab resolver d of
        Inl e \<Rightarrow> Inl e
      | Inr w \<Rightarrow> (case decode_chain extent slide symtab resolver ds of
                    Inl e \<Rightarrow> Inl e
                  | Inr ws \<Rightarrow> Inr (w # ws)))"

definition write_slot :: "addr \<Rightarrow> machine \<Rightarrow> addr \<times> addr \<Rightarrow> machine" where
  "write_slot base st w =
     st\<lparr>mem := (mem st)(base + fst w := snd w),
        trace := trace st @ [WriteSlot (base + fst w) (snd w)]\<rparr>"

text \<open>
  Modelled from the spec: apply mode. The whole chain is decoded and validated first; only
  then are the resolved pointers written, in chain order, at segment base plus slot offset.
\<close>

definition apply_chain ::
  "addr \<Rightarrow> addr \<Rightarrow> addr \<Rightarrow> 's list \<Rightarrow> ('s \<Rightarrow> addr option) \<Rightarrow> slot_descriptor list
     \<Rightarrow> machine \<Rightarrow> failure option \<times> machine" where
  "apply_chain base extent slide symtab resolver ds st =
     (case decode_chain extent slide symtab resolver ds of
        Inl e \<Rightarrow> (Some e, st)
      | Inr ws \<Rightarrow> (None, foldl (write_slot base) st ws))"

subsection \<open>The image as the binary-format parser shows it\<close>

record dyld_chained_starts_in_segment =
  segment_offset :: addr
  segment_extent :: addr
  chain_entries :: "slot_descriptor list"

record SegmentInfo =
  vmAddr :: addr
  vmSize :: addr
  readOnlyData :: bool

text \<open>
  \<open>loadAddress\<close> is the value of the header pointer itself. \<open>chainStarts\<close> is \<open>None\<close>
  for an image without chained-fixups metadata.
\<close>

record MachOLoaded =
  loadAddress :: addr
  preferredLoadAddress :: addr
  chainStarts :: "dyld_chained_starts_in_segment list option"
  segmentInfos :: "SegmentInfo list"

text \<open>
  Modelled from the spec: \<^verbatim>\<open>MachOAnalyzer::hasChainedFixups\<close> is not among the sources;
  the parser tells whether the image carries fixup-chain metadata.
\<close>

definition hasChainedFixups :: "MachOLoaded \<Rightarrow> bool" where
  "hasChainedFixups ma = (chainStarts ma \<noteq> None)"

text \<open>
  Modelled from the spec: \<^verbatim>\<open>MachOLoaded::getSlide\<close> is not among the sources; the slide
  is the actual load address minus the preferred base.
\<close>

definition getSlide :: "MachOLoaded \<Rightarrow> addr" where
  "getSlide mh = loadAddress mh - preferredLoadAddress mh"

text \<open>
  Modelled from the spec: the fixup application over all segments of an image. Each
  segment's chain goes through the decoder in apply mode, and the first failure stops the
  walk and is the diagnostic. For \<^verbatim>\<open>fixupAllChainedFixups\<close> the table holds the bind
  targets, which are addresses already.
\<close>

fun fixupSegments ::
  "addr \<Rightarrow> addr \<Rightarrow> 's list \<Rightarrow> ('s \<Rightarrow> addr option) \<Rightarrow> dyld_chained_starts_in_segment list
     \<Rightarrow> machine \<Rightarrow> failure option \<times> machine" where
  "fixupSegments imageBase slide symtab resolver [] st = (None, st)"
| "fixupSegments imageBase slide symtab resolver (s # ss) st =
     (case apply_chain (imageBase + segment_offset s) (segment_extent s) slide symtab resolver
             (chain_entries s) st of
        (Some e, st') \<Rightarrow> (Some e, st')
      | (None, st') \<Rightarrow> fixupSegments imageBase slide symtab resolver ss st')"

definition fixupAllChainedFixups ::
  "MachOLoaded \<Rightarrow> dyld_chained_starts_in_segment list \<Rightarrow> addr \<Rightarrow> addr list \<Rightarrow> machine
     \<Rightarrow> failure option \<times> machine" where
  "fixupAllChainedFixups ma starts slide bindTargets st =
     fixupSegments (loadAddress ma) slide bindTargets Some starts
       (emit (FixupAllChainedFixups slide (length bindTargets)) st)"

text \<open>
  Modelled from the spec: \<^verbatim>\<open>MachOAnalyzer::withChainStarts\<close> is not among the sources.
  It locates the fixup-chain metadata and hands the chain starts to the callback; without
  such metadata it leaves an error in the diagnostics and does not call it.
\<close>

definition withChainStarts ::
  "MachOLoaded \<Rightarrow> (dyld_chained_starts_in_segment list \<Rightarrow> machine \<Rightarrow> failure option \<times> machine)
     \<Rightarrow> machine \<Rightarrow> failure option \<times> machine" where
  "withChainStarts ma callback st =
     (case chainStarts ma of
        None \<Rightarrow> (Some MalformedFixupChain, st)
      | Some starts \<Rightarrow> callback starts st)"

subsection \<open>Collaborators of the bootstrap\<close>

text \<open>
  Modelled from the spec: \<^verbatim>\<open>mach_init\<close> comes from libc and is not among the sources;
  it initialises the syscall layer, which is all the log keeps of it.
\<close>

definition mach_init :: "machine \<Rightarrow> machine" where
  "mach_init st = emit MachInit st"

text \<open>
  Modelled from the spec: \<open>set_protection(base, size, flags)\<close> of the memory-protection
  primitive; the spec lists no failure for it, and the code ignores its result.
\<close>

definition mprotect :: "addr \<Rightarrow> addr \<Rightarrow> vm_prot \<Rightarrow> machine \<Rightarrow> machine" where
  "mprotect base len p st =
     st\<lparr>prot := (\<lambda>a. if a - base < len then p else prot st a),
        trace := trace st @ [Mprotect base len p]\<rparr>"

text \<open>
  Modelled from the spec: \<^verbatim>\<open>MachOFile::forEachSegment\<close> is not among the sources; it
  runs the block on the segments in the order of the segment table.
\<close>

fun forEachSegment :: "(SegmentInfo \<Rightarrow> machine \<Rightarrow> machine) \<Rightarrow> SegmentInfo list \<Rightarrow> machine \<Rightarrow> machine" where
  "forEachSegment body [] st = st"
| "forEachSegment body (info # infos) st = forEachSegment body infos (body info st)"

section \<open>Bootstrap of the loader: the code\<close>

datatype fatal =
    AssertHasChainedFixups
  | AssertNoError failure
  | StackVectorOverrun

text \<open>The block \<^verbatim>\<open>rebaseDyld\<close> runs on every segment: read-only data becomes read-only.\<close>

definition markReadOnly :: "MachOLoaded \<Rightarrow> SegmentInfo \<Rightarrow> machine \<Rightarrow> machine" where
  "markReadOnly dyldMH info st =
     (if readOnlyData info
      then mprotect (loadAddress dyldMH + vmAddr info) (vmSize info) VM_PROT_READ st
      else st)"

text \<open>\<^verbatim>\<open>rebaseDyld\<close>, statement by statement.\<close>

definition rebaseDyld :: "MachOLoaded \<Rightarrow> machine \<Rightarrow> (fatal \<times> machine) + machine" where
  "rebaseDyld dyldMH st0 =
     (let st = emit (EnterRebaseDyld (loadAddress dyldMH)) st0 in
      if \<not> hasChainedFixups dyldMH then Inl (AssertHasChainedFixups, st)
      else
        let slide = loadAddress dyldMH;
            (diag, st1) =
               withChainStarts dyldMH
                 (\<lambda>starts. fixupAllChainedFixups dyldMH starts slide []) st
        in case diag of
             Some e \<Rightarrow> Inl (AssertNoError e, st1)
           | None \<Rightarrow>
               Inr (forEachSegment (markReadOnly dyldMH) (segmentInfos dyldMH) (mach_init st1)))"

text \<open>
  The kernel's vector behind \<^verbatim>\<open>argv\<close>: arguments, a null, the environment, a null, the
  apple strings. \<^verbatim>\<open>while(*apple != NULL) ++apple\<close> scans it from an index; running off
  the end of the vector has no defined result in C and is \<open>None\<close> here.
\<close>

function scan_null :: "addr list \<Rightarrow> nat \<Rightarrow> nat option" where
  "scan_null vec i =
     (if length vec \<le> i then None
      else if vec ! i = 0 then Some i
      else scan_null vec (Suc i))"
  by pat_completeness auto
termination
  by (relation "measure (\<lambda>(vec, i). length vec - i)") auto

declare scan_null.simps [simp del]

text \<open>
  Modelled from the spec: \<^verbatim>\<open>__guard_setup\<close> comes from libc and is not among the
  sources; the log keeps the call and where the apple strings start.
\<close>

definition guard_setup :: "nat \<Rightarrow> machine \<Rightarrow> machine" where
  "guard_setup apple st = emit (GuardSetup apple) st"

text \<open>
  \<^verbatim>\<open>dyldbootstrap::start\<close>. \<^verbatim>\<open>dyld::_main\<close> is outside the bootstrap and is a
  parameter: the call is logged and its result returned.
\<close>

definition start ::
  "(MachOLoaded \<Rightarrow> addr \<Rightarrow> addr) \<Rightarrow> MachOLoaded \<Rightarrow> nat \<Rightarrow> addr list \<Rightarrow> MachOLoaded \<Rightarrow> machine
     \<Rightarrow> (fatal \<times> machine) + (addr \<times> machine)" where
  "start dyld_main appsMachHeader argc argv dyldsMachHeader st0 =
     (case rebaseDyld dyldsMachHeader (emit KdebugTrace st0) of
        Inl f \<Rightarrow> Inl f
      | Inr st1 \<Rightarrow>
          (let envp = argc + 1 in
           case scan_null argv envp of
             None \<Rightarrow> Inl (StackVectorOverrun, st1)
           | Some n \<Rightarrow>
               (let apple = Suc n;
                    st2 = guard_setup apple st1;
                    appsSlide = getSlide appsMachHeader
                in Inr (dyld_main appsMachHeader appsSlide,
                        emit (CallMain (loadAddress appsMachHeader) appsSlide) st2))))"

text \<open>
  \<^verbatim>\<open>start_sim\<close>, the simulator's entry point; \<open>sc\<close> is the host's table of syscall
  helpers and \<open>processInfo\<close> what \<^verbatim>\<open>sc->getProcessInfo()\<close> returns.
\<close>

definition start_sim ::
  "(MachOLoaded \<Rightarrow> addr \<Rightarrow> addr) \<Rightarrow> nat \<Rightarrow> MachOLoaded \<Rightarrow> MachOLoaded \<Rightarrow> addr \<Rightarrow> addr \<Rightarrow> machine
     \<Rightarrow> (fatal \<times> machine) + (addr \<times> machine)" where
  "start_sim dyld_main apple mainExecutableMH dyldSimMH sc processInfo st0 =
     (let st = (emit (WriteGlobal ''gSyscallHelpers'' sc) st0)
                 \<lparr>globals := (globals st0)(''gSyscallHelpers'' := sc)\<rparr> in
      case rebaseDyld dyldSimMH st of
        Inl f \<Rightarrow> Inl f
      | Inr st1 \<Rightarrow>
          (let st2 = guard_setup apple st1;
               st3 = (emit (WriteGlobal ''gProcessInfo'' processInfo) st2)
                       \<lparr>globals := (globals st2)(''gProcessInfo'' := processInfo)\<rparr>;
               st4 = emit SyncProcessInfo st3;
               appsSlide = getSlide mainExecutableMH
           in Inr (dyld_main mainExecutableMH appsSlide,
                   emit (CallMain (loadAddress mainExecutableMH) appsSlide) st4)))"

text \<open>The machine at the end of a run, whether it ended in \<^verbatim>\<open>abort\<close> or not.\<close>

definition final_rebase :: "(fatal \<times> machine) + machine \<Rightarrow> machine" where
  "final_rebase r = (case r of Inl (f, st) \<Rightarrow> st | Inr st \<Rightarrow> st)"

definition final_start :: "(fatal \<times> machine) + (addr \<times> machine) \<Rightarrow> machine" where
  "final_start r = (case r of Inl (f, st) \<Rightarrow> st | Inr (v, st) \<Rightarrow> st)"

text \<open>The events a run added to the log it started with.\<close>

definition events_since :: "machine \<Rightarrow> machine \<Rightarrow> event list" where
  "events_since st0 st = drop (length (trace st0)) (trace st)"

subsection \<open>Reading the log\<close>

fun is_write :: "event \<Rightarrow> bool" where
  "is_write (WriteSlot a v) = True"
| "is_write e = False"

fun is_enter :: "event \<Rightarrow> bool" where
  "is_enter (EnterRebaseDyld a) = True"
| "is_enter e = False"

fun is_protect :: "event \<Rightarrow> bool" where
  "is_protect (Mprotect b l p) = True"
| "is_protect e = False"

fun is_global_read :: "event \<Rightarrow> bool" where
  "is_global_read (ReadGlobal g) = True"
| "is_global_read e = False"

fun is_global_access :: "event \<Rightarrow> bool" where
  "is_global_access (ReadGlobal g) = True"
| "is_global_access (WriteGlobal g v) = True"
| "is_global_access e = False"

text \<open>How often \<^verbatim>\<open>rebaseDyld\<close> was called, and what happened before its first call.\<close>

definition rebase_calls :: "event list \<Rightarrow> nat" where
  "rebase_calls evs = length (filter is_enter evs)"

definition before_rebase :: "event list \<Rightarrow> event list" where
  "before_rebase evs = takeWhile (\<lambda>e. \<not> is_enter e) evs"

text \<open>The protection downgrades \<^verbatim>\<open>rebaseDyld\<close> asks for, one for each read-only-data segment.\<close>

definition protect_events :: "MachOLoaded \<Rightarrow> event list" where
  "protect_events ma =
     map (\<lambda>info. Mprotect (loadAddress ma + vmAddr info) (vmSize info) VM_PROT_READ)
       (filter readOnlyData (segmentInfos ma))"

text \<open>
  The order the specification asks for: wherever the log has \<open>MachInit\<close>, every downgrade
  in \<open>needed\<close> is already in the log before it.
\<close>

definition downgraded_before_init :: "event list \<Rightarrow> event list \<Rightarrow> bool" where
  "downgraded_before_init needed evs =
     (\<forall>i < length evs. evs ! i = MachInit \<longrightarrow> set needed \<subseteq> set (take i evs))"

text \<open>The addresses of all slots named by the chains of an image mapped at \<open>imageBase\<close>.\<close>

definition slot_addresses :: "addr \<Rightarrow> dyld_chained_starts_in_segment list \<Rightarrow> addr list" where
  "slot_addresses imageBase starts =
     concat (map (\<lambda>s. map (\<lambda>d. imageBase + segment_offset s + slot_offset d) (chain_entries s))
               starts)"

subsection \<open>Concrete machines and images\<close>

definition boot_machine :: machine where
  "boot_machine = \<lparr>mem = (\<lambda>a. 0), prot = (\<lambda>a. 3), globals = (\<lambda>g. 0), trace = []\<rparr>"

text \<open>
  A loader image at 0x1000 with one data segment holding two rebase entries and a
  read-only-data segment.
\<close>

definition example_dyld :: MachOLoaded where
  "example_dyld =
     \<lparr>loadAddress = 0x1000, preferredLoadAddress = 0,
      chainStarts = Some [\<lparr>segment_offset = 0x4000, segment_extent = 0x1000,
                           chain_entries = [\<lparr>slot_offset = 0, slot_kind = Rebase 0x20\<rparr>,
                                            \<lparr>slot_offset = 8, slot_kind = Rebase 0x30\<rparr>]\<rparr>],
      segmentInfos = [\<lparr>vmAddr = 0x4000, vmSize = 0x1000, readOnlyData = False\<rparr>,
                      \<lparr>vmAddr = 0x5000, vmSize = 0x1000, readOnlyData = True\<rparr>]\<rparr>"

definition example_app :: MachOLoaded where
  "example_app =
     \<lparr>loadAddress = 0x100000000, preferredLoadAddress = 0x100000000,
      chainStarts = None, segmentInfos = []\<rparr>"

text \<open>The same image without chained-fixups metadata, and one whose chain holds a bind.\<close>

definition example_unchained :: MachOLoaded where
  "example_unchained = example_dyld\<lparr>chainStarts := None\<rparr>"

definition example_bound :: MachOLoaded where
  "example_bound =
     example_dyld\<lparr>chainStarts :=
       Some [\<lparr>segment_offset = 0x4000, segment_extent = 0x1000,
              chain_entries = [\<lparr>slot_offset = 0, slot_kind = Rebase 0x20\<rparr>,
                               \<lparr>slot_offset = 8, slot_kind = Bind 0 0\<rparr>]\<rparr>]\<rparr>"

text \<open>The slides handed to the fixup application, as the log shows them.\<close>

fun slide_of :: "event \<Rightarrow> addr option" where
  "slide_of (FixupAllChainedFixups s n) = Some s"
| "slide_of e = None"

definition fixup_slides :: "event list \<Rightarrow> addr list" where
  "fixup_slides evs = List.map_filter slide_of evs"

text \<open>A result of \<^verbatim>\<open>dyld::_main\<close> for the examples: the entry is the header.\<close>

definition example_main :: "MachOLoaded \<Rightarrow> addr \<Rightarrow> addr" where
  "example_main mh slide = loadAddress mh"

text \<open>
  A kernel vector for one argument, one environment string and one apple string, each
  block closed by a null.
\<close>

definition example_argv :: "addr list" where
  "example_argv = [0x9000, 0, 0x9100, 0, 0x9200, 0]"

section \<open>The transactional load engine\<close>

text \<open>
  Modelled from the spec: the Dependency Resolver, the Load Orchestrator and the Process
  Image Registry (the code behind \<^verbatim>\<open>dlopen\<close>, \<^verbatim>\<open>_dyld_image_count\<close> and
  \<^verbatim>\<open>_dyld_get_image_name\<close> is not among the sources; only a test of it is). The
  definitions below follow sections 3, 4.3, 4.4 and 6 of the specification.
\<close>

type_synonym path = string
type_synonym symbol = string

text \<open>What the binary-format parser shows of a binary on disk.\<close>

record binary =
  preferred_base :: addr
  fixup_starts :: "dyld_chained_starts_in_segment list"
  dependencies :: "path list"
  exported_symbols :: "(symbol \<times> addr) list"
  external_symbols :: "symbol list"

datatype image_state = Unmapped | Mapped | Rebased | Bound | Initialized | Registered | Unwound

record image =
  image_path :: path
  image_base :: addr
  image_slide :: addr
  image_binary :: binary
  image_state :: image_state
  ref_count :: nat

text \<open>
  The collaborators: the binaries that can be located, the compatibility policy (asked
  with the requesting image, if any), the mapping primitive (a base address or failure)
  and the outcome of an image's initializers.
\<close>

record world =
  files :: "(path \<times> binary) list"
  compatible :: "path option \<Rightarrow> binary \<Rightarrow> bool"
  map_segments :: "path \<Rightarrow> addr option"
  run_initializers :: "path \<Rightarrow> bool"

record process =
  registry :: "image list"
  resident :: "path list"
  memory :: machine

subsection \<open>Introspection\<close>

text \<open>
  Modelled from the spec: \<open>image_count\<close> and \<open>image_name_at\<close> (\<^verbatim>\<open>_dyld_image_count\<close>
  and \<^verbatim>\<open>_dyld_get_image_name\<close>, not among the sources) read the registry.
\<close>

definition image_count :: "process \<Rightarrow> nat" where
  "image_count p = length (registry p)"

definition image_name_at :: "process \<Rightarrow> nat \<Rightarrow> path option" where
  "image_name_at p i = (if i < length (registry p) then Some (image_path (registry p ! i)) else None)"

definition registered :: "process \<Rightarrow> path \<Rightarrow> bool" where
  "registered p q = (q \<in> image_path ` set (registry p))"

subsection \<open>A transaction\<close>

text \<open>
  A transaction owns the images it introduced: \<open>introduced\<close> is its rollback list, the
  paths it mapped, latest first; \<open>new_nodes\<close> holds the new images in topological order,
  dependencies first; \<open>retained\<close> lists the registered images whose reference count it
  incremented, in that order.
\<close>

record transaction =
  txn_process :: process
  introduced :: "path list"
  new_nodes :: "image list"
  retained :: "path list"

definition begin_transaction :: "process \<Rightarrow> transaction" where
  "begin_transaction p = \<lparr>txn_process = p, introduced = [], new_nodes = [], retained = []\<rparr>"

definition retain_image :: "path \<Rightarrow> image list \<Rightarrow> image list" where
  "retain_image q reg =
     map (\<lambda>i. if image_path i = q then i\<lparr>ref_count := Suc (ref_count i)\<rparr> else i) reg"

definition release_image :: "path \<Rightarrow> image list \<Rightarrow> image list" where
  "release_image q reg =
     map (\<lambda>i. if image_path i = q then i\<lparr>ref_count := ref_count i - 1\<rparr> else i) reg"

definition reuse :: "path \<Rightarrow> transaction \<Rightarrow> transaction" where
  "reuse q t =
     t\<lparr>txn_process := (txn_process t)\<lparr>registry := retain_image q (registry (txn_process t))\<rparr>,
       retained := retained t @ [q]\<rparr>"

definition map_new_image :: "path \<Rightarrow> transaction \<Rightarrow> transaction" where
  "map_new_image q t =
     t\<lparr>txn_process := (txn_process t)\<lparr>resident := q # resident (txn_process t)\<rparr>,
       introduced := q # introduced t\<rparr>"

definition new_image :: "path \<Rightarrow> binary \<Rightarrow> image" where
  "new_image q b =
     \<lparr>image_path = q, image_base = 0, image_slide = 0, image_binary = b,
      image_state = Mapped, ref_count = 0\<rparr>"

definition requester :: "path list \<Rightarrow> path option" where
  "requester stack = (case stack of [] \<Rightarrow> None | r # rs \<Rightarrow> Some r)"

subsection \<open>Dependency Resolver\<close>

text \<open>
  Modelled from the spec: the Dependency Resolver (section 4.3).
  \<open>resolve_image\<close> satisfies one dependency identifier, \<open>resolve_all\<close> a list of them;
  \<open>stack\<close> holds the images whose dependencies are being resolved. A registered image is
  reused; an image this transaction has introduced already is shared; anything else is
  located, mapped, and resolved itself before it joins the load order. A failure comes
  with the transaction as it stood.
\<close>

function resolve_image ::
    "world \<Rightarrow> path list \<Rightarrow> path \<Rightarrow> transaction \<Rightarrow> (failure \<times> path \<times> transaction) + transaction"
  and resolve_all ::
    "world \<Rightarrow> path list \<Rightarrow> path list \<Rightarrow> transaction \<Rightarrow> (failure \<times> path \<times> transaction) + transaction"
where
  "resolve_image w stack q t =
     (if registered (txn_process t) q then Inr (reuse q t)
      else if q \<in> set stack then Inl (CyclicUnloadableDependency, q, t)
      else if q \<in> set (introduced t) then Inr t
      else case map_of (files w) q of
             None \<Rightarrow> Inl (DependencyNotFound, q, t)
           | Some b \<Rightarrow>
               if \<not> compatible w (requester stack) b then Inl (IncompatibleDependency, q, t)
               else (case resolve_all w (q # stack) (dependencies b) (map_new_image q t) of
                       Inl f \<Rightarrow> Inl f
                     | Inr t' \<Rightarrow> Inr (t'\<lparr>new_nodes := new_nodes t' @ [new_image q b]\<rparr>)))"
| "resolve_all w stack [] t = Inr t"
| "resolve_all w stack (d # ds) t =
     (case resolve_image w stack d t of
        Inl f \<Rightarrow> Inl f
      | Inr t' \<Rightarrow> resolve_all w stack ds t')"
  by pat_completeness auto
termination
proof (relation "measures [\<lambda>x. case x of
                              Inl (w, stack, q, t) \<Rightarrow> card (fst ` set (files w) - set stack)
                            | Inr (w, stack, ds, t) \<Rightarrow> card (fst ` set (files w) - set stack),
                          \<lambda>x. case x of
                              Inl (w, stack, q, t) \<Rightarrow> 0
                            | Inr (w, stack, ds, t) \<Rightarrow> Suc (length ds)]")
  show "wf (measures [\<lambda>x. case x of
                              Inl (w, stack, q, t) \<Rightarrow> card (fst ` set (files w) - set stack)
                            | Inr (w, stack, ds, t) \<Rightarrow> card (fst ` set (files w) - set stack),
                          \<lambda>x. case x of
                              Inl (w, stack, q, t) \<Rightarrow> 0
                            | Inr (w, stack, ds, t) \<Rightarrow> Suc (length ds)])"
    by simp
next
  fix w :: world and stack :: "path list" and q :: path and t :: transaction and b :: binary
  assume "q \<notin> set stack" and "map_of (files w) q = Some b"
  then have "q \<in> fst ` set (files w) - set stack"
    by (auto dest: map_of_SomeD intro: rev_image_eqI)
  then have "fst ` set (files w) - set (q # stack) \<subset> fst ` set (files w) - set stack"
    by auto
  then have "card (fst ` set (files w) - set (q # stack)) < card (fst ` set (files w) - set stack)"
    by (intro psubset_card_mono) auto
  then show "(Inr (w, q # stack, dependencies b, map_new_image q t), Inl (w, stack, q, t))
         \<in> measures [\<lambda>x. case x of
                              Inl (w, stack, q, t) \<Rightarrow> card (fst ` set (files w) - set stack)
                            | Inr (w, stack, ds, t) \<Rightarrow> card (fst ` set (files w) - set stack),
                          \<lambda>x. case x of
                              Inl (w, stack, q, t) \<Rightarrow> 0
                            | Inr (w, stack, ds, t) \<Rightarrow> Suc (length ds)]"
    by simp
qed auto

declare resolve_image.simps [simp del]

subsection \<open>Load Orchestrator\<close>

text \<open>
  Modelled from the spec: the steps of the Load Orchestrator (section 4.4).
  One step of the state machine runs over the new nodes in load order. A node that fails
  stops the step; the failure comes with the node's path and the memory as it was left.
\<close>

fun each_node ::
  "(image \<Rightarrow> machine \<Rightarrow> (failure \<times> machine) + (image \<times> machine)) \<Rightarrow> image list \<Rightarrow> machine
     \<Rightarrow> (failure \<times> path \<times> machine) + (image list \<times> machine)" where
  "each_node f [] m = Inr ([], m)"
| "each_node f (n # ns) m =
     (case f n m of
        Inl (e, m') \<Rightarrow> Inl (e, image_path n, m')
      | Inr (n', m') \<Rightarrow>
          (case each_node f ns m' of
             Inl x \<Rightarrow> Inl x
           | Inr (ns', m'') \<Rightarrow> Inr (n' # ns', m'')))"

definition with_memory :: "machine \<Rightarrow> transaction \<Rightarrow> transaction" where
  "with_memory m t = t\<lparr>txn_process := (txn_process t)\<lparr>memory := m\<rparr>\<rparr>"

definition run_step ::
  "(image \<Rightarrow> machine \<Rightarrow> (failure \<times> machine) + (image \<times> machine)) \<Rightarrow> transaction
     \<Rightarrow> (failure \<times> path \<times> transaction) + transaction" where
  "run_step f t =
     (case each_node f (new_nodes t) (memory (txn_process t)) of
        Inl (e, q, m) \<Rightarrow> Inl (e, q, with_memory m t)
      | Inr (ns, m) \<Rightarrow> Inr ((with_memory m t)\<lparr>new_nodes := ns\<rparr>))"

text \<open>
  Modelled from the spec: Map. The mapping primitive gives the base address, and with it
  the slide.
\<close>

definition map_node :: "world \<Rightarrow> image \<Rightarrow> machine \<Rightarrow> (failure \<times> machine) + (image \<times> machine)" where
  "map_node w n m =
     (case map_segments w (image_path n) of
        None \<Rightarrow> Inl (MappingFailure, m)
      | Some base \<Rightarrow>
          Inr (n\<lparr>image_base := base,
                 image_slide := base - preferred_base (image_binary n),
                 image_state := Mapped\<rparr>, m))"

text \<open>The entries of one kind in the chains of an image.\<close>

fun is_rebase :: "slot_descriptor \<Rightarrow> bool" where
  "is_rebase d = (case slot_kind d of Rebase target \<Rightarrow> True | Bind ordinal addend \<Rightarrow> False)"

definition only_entries ::
  "(slot_descriptor \<Rightarrow> bool) \<Rightarrow> dyld_chained_starts_in_segment list
     \<Rightarrow> dyld_chained_starts_in_segment list" where
  "only_entries keep starts = map (\<lambda>s. s\<lparr>chain_entries := filter keep (chain_entries s)\<rparr>) starts"

text \<open>
  Modelled from the spec: Rebase. The decoder in apply mode on the rebase entries; no symbol
  is looked up.
\<close>

definition rebase_node :: "image \<Rightarrow> machine \<Rightarrow> (failure \<times> machine) + (image \<times> machine)" where
  "rebase_node n m =
     (case fixupSegments (image_base n) (image_slide n) ([] :: symbol list) (\<lambda>s. None)
             (only_entries is_rebase (fixup_starts (image_binary n))) m of
        (Some e, m') \<Rightarrow> Inl (e, m')
      | (None, m') \<Rightarrow> Inr (n\<lparr>image_state := Rebased\<rparr>, m'))"

text \<open>
  Modelled from the spec: symbol resolution for Bind.
  A symbol is looked up in the exported-symbol tables of the dependency images, in the
  order the dependencies are declared; its address is the image's base plus the export's
  offset.
\<close>

fun resolve_symbol :: "image list \<Rightarrow> path list \<Rightarrow> symbol \<Rightarrow> addr option" where
  "resolve_symbol imgs [] s = None"
| "resolve_symbol imgs (d # ds) s =
     (case find (\<lambda>i. image_path i = d) imgs of
        None \<Rightarrow> resolve_symbol imgs ds s
      | Some i \<Rightarrow>
          (case map_of (exported_symbols (image_binary i)) s of
             None \<Rightarrow> resolve_symbol imgs ds s
           | Some off \<Rightarrow> Some (image_base i + off)))"

text \<open>
  Modelled from the spec: Bind. The decoder in apply mode on the bind entries, the ordinals
  resolved against the new nodes and the registered images.
\<close>

definition bind_node ::
  "image list \<Rightarrow> image \<Rightarrow> machine \<Rightarrow> (failure \<times> machine) + (image \<times> machine)" where
  "bind_node imgs n m =
     (case fixupSegments (image_base n) (image_slide n) (external_symbols (image_binary n))
             (resolve_symbol imgs (dependencies (image_binary n)))
             (only_entries (\<lambda>d. \<not> is_rebase d) (fixup_starts (image_binary n))) m of
        (Some e, m') \<Rightarrow> Inl (e, m')
      | (None, m') \<Rightarrow> Inr (n\<lparr>image_state := Bound\<rparr>, m'))"

text \<open>
  Modelled from the spec: Initialize. An initializer that signals failure fails the
  transaction.
\<close>

definition initialize_node ::
  "world \<Rightarrow> image \<Rightarrow> machine \<Rightarrow> (failure \<times> machine) + (image \<times> machine)" where
  "initialize_node w n m =
     (if run_initializers w (image_path n) then Inr (n\<lparr>image_state := Initialized\<rparr>, m)
      else Inl (InitializerFailure, m))"

text \<open>
  Modelled from the spec: Commit appends the new nodes to the registry, in load order.
\<close>

definition commit :: "transaction \<Rightarrow> process" where
  "commit t =
     (txn_process t)
       \<lparr>registry := registry (txn_process t) @
                     map (\<lambda>n. n\<lparr>image_state := Registered, ref_count := 1\<rparr>) (new_nodes t)\<rparr>"

text \<open>
  Modelled from the spec: Unwind. Every image the transaction introduced is unmapped, latest first, and every
  reference count it incremented is released, latest first. The nodes are dropped with
  the transaction.
\<close>

definition unwind :: "transaction \<Rightarrow> process" where
  "unwind t =
     (txn_process t)
       \<lparr>registry := fold release_image (rev (retained t)) (registry (txn_process t)),
        resident := fold remove1 (introduced t) (resident (txn_process t))\<rparr>"

text \<open>
  Modelled from the spec: Collect, Map, Rebase, Bind, Initialize, the transaction up to its
  last step.
\<close>

definition bind_step :: "transaction \<Rightarrow> (failure \<times> path \<times> transaction) + transaction" where
  "bind_step t = run_step (bind_node (new_nodes t @ registry (txn_process t))) t"

definition run_transaction ::
  "world \<Rightarrow> process \<Rightarrow> path list \<Rightarrow> (failure \<times> path \<times> transaction) + transaction" where
  "run_transaction w p roots =
     (case resolve_all w [] roots (begin_transaction p) of
        Inl f \<Rightarrow> Inl f
      | Inr t0 \<Rightarrow>
     (case run_step (map_node w) t0 of
        Inl f \<Rightarrow> Inl f
      | Inr t1 \<Rightarrow>
     (case run_step rebase_node t1 of
        Inl f \<Rightarrow> Inl f
      | Inr t2 \<Rightarrow>
     (case bind_step t2 of
        Inl f \<Rightarrow> Inl f
      | Inr t3 \<Rightarrow> run_step (initialize_node w) t3))))"

datatype load_result = Handle path | Failed failure path

text \<open>
  Modelled from the spec: \<open>load\<close> with the must-resolve-now flag (\<^verbatim>\<open>dlopen\<close> with
  \<^verbatim>\<open>RTLD_NOW\<close>, not among the sources): the whole pipeline, then Commit, or Unwind at
  the first failure.
\<close>

definition load :: "world \<Rightarrow> process \<Rightarrow> path \<Rightarrow> load_result \<times> process" where
  "load w p identifier =
     (case run_transaction w p [identifier] of
        Inl (e, q, t) \<Rightarrow> (Failed e q, unwind t)
      | Inr t \<Rightarrow> (Handle identifier, commit t))"

text \<open>The paths a load attempt introduces: those of the images its transaction mapped.\<close>

definition introduced_paths :: "world \<Rightarrow> process \<Rightarrow> path \<Rightarrow> path list" where
  "introduced_paths w p identifier =
     (case run_transaction w p [identifier] of
        Inl (e, q, t) \<Rightarrow> introduced t
      | Inr t \<Rightarrow> introduced t)"

text \<open>
  An image can bind when each of its bind entries lies in its segment, has an ordinal
  inside the image's external-symbol table, and names a symbol that one of the dependency
  images exports.
\<close>

definition entry_binds :: "image list \<Rightarrow> binary \<Rightarrow> addr \<Rightarrow> slot_descriptor \<Rightarrow> bool" where
  "entry_binds imgs b extent d =
     (case slot_kind d of
        Rebase target \<Rightarrow> True
      | Bind ordinal addend \<Rightarrow>
          slot_in_segment extent (slot_offset d) \<and> ordinal < length (external_symbols b) \<and>
          resolve_symbol imgs (dependencies b) (external_symbols b ! ordinal) \<noteq> None)"

definition can_bind :: "image list \<Rightarrow> image \<Rightarrow> bool" where
  "can_bind imgs n =
     list_all (\<lambda>s. list_all (entry_binds imgs (image_binary n) (segment_extent s)) (chain_entries s))
       (fixup_starts (image_binary n))"

subsection \<open>The test \<^verbatim>\<open>dlopen-fail-cleanly\<close>\<close>

fun starts_with :: "string \<Rightarrow> string \<Rightarrow> bool" where
  "starts_with hay [] = True"
| "starts_with [] (c # cs) = False"
| "starts_with (h # hs) (c # cs) = (h = c \<and> starts_with hs cs)"

text \<open>\<^verbatim>\<open>strstr(hay, needle) != NULL\<close>.\<close>

fun strstr :: "string \<Rightarrow> string \<Rightarrow> bool" where
  "strstr [] needle = (needle = [])"
| "strstr (h # hs) needle = (starts_with (h # hs) needle \<or> strstr hs needle)"

datatype test_result = PASS string | FAIL string

text \<open>
  \<^verbatim>\<open>main\<close> of the test: the load of \<^verbatim>\<open>liba.dylib\<close> has to fail, and no image under
  \<^verbatim>\<open>RUN_DIR "/lib"\<close> may be left among the loaded images.
\<close>

definition main :: "world \<Rightarrow> process \<Rightarrow> string \<Rightarrow> test_result" where
  "main w p RUN_DIR =
     (case load w p (RUN_DIR @ ''/liba.dylib'') of
        (Handle h, p') \<Rightarrow> FAIL ''dlopen(liba.dylib) expected to fail but did not''
      | (Failed e q, p') \<Rightarrow>
          (case find (\<lambda>i. strstr (the (image_name_at p' i)) (RUN_DIR @ ''/lib''))
                  [0 ..< image_count p'] of
             Some i \<Rightarrow> FAIL (''Found unexpected loaded image: '' @ the (image_name_at p' i))
           | None \<Rightarrow> PASS ''Success''))"

subsection \<open>The scenario of the test\<close>

text \<open>
  \<^verbatim>\<open>liba\<close> links \<^verbatim>\<open>libb\<close>, which links \<^verbatim>\<open>libc\<close>; \<^verbatim>\<open>libb\<close> was built against a
  \<^verbatim>\<open>libc\<close> with an extra symbol that the installed \<^verbatim>\<open>libc\<close> does not export. The process
  holds the test program and the system library.
\<close>

definition liba :: binary where
  "liba = \<lparr>preferred_base = 0,
           fixup_starts = [\<lparr>segment_offset = 0x4000, segment_extent = 0x1000,
                            chain_entries = [\<lparr>slot_offset = 0, slot_kind = Bind 0 0\<rparr>]\<rparr>],
           dependencies = [''/run/libb.dylib''],
           exported_symbols = [(''_a'', 0x100)],
           external_symbols = [''_b'']\<rparr>"

definition libb :: binary where
  "libb = \<lparr>preferred_base = 0,
           fixup_starts = [\<lparr>segment_offset = 0x4000, segment_extent = 0x1000,
                            chain_entries = [\<lparr>slot_offset = 0, slot_kind = Rebase 0x4010\<rparr>,
                                             \<lparr>slot_offset = 8, slot_kind = Bind 0 0\<rparr>,
                                             \<lparr>slot_offset = 16, slot_kind = Bind 1 0\<rparr>]\<rparr>],
           dependencies = [''/run/libc.dylib'', ''/usr/lib/libSystem.dylib''],
           exported_symbols = [(''_b'', 0x100)],
           external_symbols = [''_c'', ''_extra'']\<rparr>"

definition libc :: binary where
  "libc = \<lparr>preferred_base = 0,
           fixup_starts = [\<lparr>segment_offset = 0x4000, segment_extent = 0x1000,
                            chain_entries = [\<lparr>slot_offset = 0, slot_kind = Rebase 0x4020\<rparr>]\<rparr>],
           dependencies = [''/usr/lib/libSystem.dylib''],
           exported_symbols = [(''_c'', 0x100)],
           external_symbols = []\<rparr>"

definition test_world :: world where
  "test_world =
     \<lparr>files = [(''/run/liba.dylib'', liba), (''/run/libb.dylib'', libb),
               (''/run/libc.dylib'', libc)],
      compatible = (\<lambda>r b. True),
      map_segments = (\<lambda>q. if q = ''/run/liba.dylib'' then Some 0x10000
                           else if q = ''/run/libb.dylib'' then Some 0x20000
                           else if q = ''/run/libc.dylib'' then Some 0x30000 else None),
      run_initializers = (\<lambda>q. True)\<rparr>"

definition loaded_image :: "path \<Rightarrow> addr \<Rightarrow> image" where
  "loaded_image q base =
     \<lparr>image_path = q, image_base = base, image_slide = base,
      image_binary = \<lparr>preferred_base = 0, fixup_starts = [], dependencies = [],
                      exported_symbols = [], external_symbols = []\<rparr>,
      image_state = Registered, ref_count = 1\<rparr>"

definition test_process :: process where
  "test_process =
     \<lparr>registry = [loaded_image ''/run/test.exe'' 0x100000000,
                  loaded_image ''/usr/lib/libSystem.dylib'' 0x7000000],
      resident = [''/run/test.exe'', ''/usr/lib/libSystem.dylib''],
      memory = boot_machine\<rparr>"

subsection \<open>Notions for reasoning about a transaction\<close>

text \<open>
  What holds of a transaction on process \<open>p\<close> at every moment: the registry differs from
  that of \<open>p\<close> by the retained reference counts only, the resident images are those of
  \<open>p\<close> and the introduced ones, and nothing introduced or new is registered in \<open>p\<close>.
\<close>

definition txn_inv :: "process \<Rightarrow> transaction \<Rightarrow> bool" where
  "txn_inv p t =
     (registry (txn_process t) = fold retain_image (retained t) (registry p) \<and>
      resident (txn_process t) = introduced t @ resident p \<and>
      (\<forall>q \<in> set (introduced t). \<not> registered p q) \<and>
      image_path ` set (new_nodes t) \<subseteq> set (introduced t))"

text \<open>
  A result of the resolver, failure or not, keeps the invariant and has forgotten none of
  the images introduced before.
\<close>

definition resolver_keeps ::
  "process \<Rightarrow> transaction \<Rightarrow> (failure \<times> path \<times> transaction) + transaction \<Rightarrow> bool" where
  "resolver_keeps p t r =
     (case r of
        Inl (e, q, t') \<Rightarrow> txn_inv p t' \<and> set (introduced t) \<subseteq> set (introduced t')
      | Inr t' \<Rightarrow> txn_inv p t' \<and> set (introduced t) \<subseteq> set (introduced t'))"

text \<open>Registry, residency and rollback lists are the same in two transactions.\<close>

definition same_books :: "transaction \<Rightarrow> transaction \<Rightarrow> bool" where
  "same_books t t' =
     (registry (txn_process t') = registry (txn_process t) \<and>
      resident (txn_process t') = resident (txn_process t) \<and>
      introduced t' = introduced t \<and> retained t' = retained t)"

text \<open>Two images are the same binary under the same path.\<close>

definition same_image :: "image \<Rightarrow> image \<Rightarrow> bool" where
  "same_image n n' = (image_path n' = image_path n \<and> image_binary n' = image_binary n)"

text \<open>A step that leaves path and binary of every node alone.\<close>

definition keeps_image ::
  "(image \<Rightarrow> machine \<Rightarrow> (failure \<times> machine) + (image \<times> machine)) \<Rightarrow> bool" where
  "keeps_image f = (\<forall>n m n' m'. f n m = Inr (n', m') \<longrightarrow> same_image n n')"

text \<open>The last state of a transaction, however it ended.\<close>

definition final_txn :: "(failure \<times> path \<times> transaction) + transaction \<Rightarrow> transaction" where
  "final_txn r = (case r of Inl (e, q, t) \<Rightarrow> t | Inr t \<Rightarrow> t)"

section \<open>Properties of the bootstrap\<close>

subsection \<open>What each step logs and leaves alone\<close>

lemma trace_foldl_write:
  "trace (foldl (write_slot b) st ws) = trace st @ map (\<lambda>w. WriteSlot (b + fst w) (snd w)) ws"
  by (induction ws arbitrary: st) (simp_all add: write_slot_def)

lemma prot_foldl_write: "prot (foldl (write_slot b) st ws) = prot st"
  by (induction ws arbitrary: st) (simp_all add: write_slot_def)

lemma globals_foldl_write: "globals (foldl (write_slot b) st ws) = globals st"
  by (induction ws arbitrary: st) (simp_all add: write_slot_def)

lemma apply_chain_shape:
  assumes "apply_chain b x s tab r ds st = (res, st')"
  shows "\<exists>ws. list_all is_write ws \<and> trace st' = trace st @ ws"
    and "prot st' = prot st" and "globals st' = globals st"
  using assms
  by (auto simp: apply_chain_def trace_foldl_write prot_foldl_write globals_foldl_write
      list_all_iff split: sum.splits)

lemma apply_chain_failure: "apply_chain b x s tab r ds st = (Some e, st') \<Longrightarrow> st' = st"
  by (auto simp: apply_chain_def split: sum.splits)

lemma fixupSegments_shape:
  "fixupSegments ib s tg Some ss st = (res, st') \<Longrightarrow>
     (\<exists>ws. list_all is_write ws \<and> trace st' = trace st @ ws) \<and> prot st' = prot st \<and> globals st' = globals st"
proof (induction ss arbitrary: st)
  case Nil
  then show ?case by simp
next
  case (Cons c cs)
  obtain r1 st1 where ac: "apply_chain (ib + segment_offset c) (segment_extent c) s tg Some (chain_entries c) st = (r1, st1)"
    by (cases "apply_chain (ib + segment_offset c) (segment_extent c) s tg Some (chain_entries c) st")
  from apply_chain_shape[OF ac] obtain ws1 where
    w1: "list_all is_write ws1" "trace st1 = trace st @ ws1" "prot st1 = prot st" "globals st1 = globals st"
    by blast
  show ?case
  proof (cases r1)
    case None
    with Cons.prems ac have "fixupSegments ib s tg Some cs st1 = (res, st')" by simp
    from Cons.IH[OF this] w1 show ?thesis by auto
  next
    case (Some e)
    with Cons.prems ac have "st' = st1" by simp
    with w1 show ?thesis by auto
  qed
qed

lemma rebaseDyld_unchained:
  "\<not> hasChainedFixups ma \<Longrightarrow>
     rebaseDyld ma st = Inl (AssertHasChainedFixups, emit (EnterRebaseDyld (loadAddress ma)) st)"
  by (simp add: rebaseDyld_def Let_def)

lemma rebaseDyld_chained:
  "chainStarts ma = Some starts \<Longrightarrow>
     rebaseDyld ma st =
       (case fixupSegments (loadAddress ma) (loadAddress ma) [] Some starts
               (emit (FixupAllChainedFixups (loadAddress ma) 0)
                  (emit (EnterRebaseDyld (loadAddress ma)) st)) of
          (Some e, st1) \<Rightarrow> Inl (AssertNoError e, st1)
        | (None, st1) \<Rightarrow>
            Inr (forEachSegment (markReadOnly ma) (segmentInfos ma) (mach_init st1)))"
  by (simp add: rebaseDyld_def Let_def hasChainedFixups_def withChainStarts_def
      fixupAllChainedFixups_def markReadOnly_def split: prod.splits option.splits)

lemma forEachSegment_trace:
  "trace (forEachSegment (markReadOnly ma) infos st) =
     trace st @ map (\<lambda>info. Mprotect (loadAddress ma + vmAddr info) (vmSize info) VM_PROT_READ)
                  (filter readOnlyData infos)"
  by (induction infos arbitrary: st) (simp_all add: markReadOnly_def mprotect_def)

lemma forEachSegment_mem: "mem (forEachSegment (markReadOnly ma) infos st) = mem st"
  by (induction infos arbitrary: st) (simp_all add: markReadOnly_def mprotect_def)

lemma forEachSegment_globals: "globals (forEachSegment (markReadOnly ma) infos st) = globals st"
  by (induction infos arbitrary: st) (simp_all add: markReadOnly_def mprotect_def)

lemma forEachSegment_keeps_read:
  "prot st a = VM_PROT_READ \<Longrightarrow> prot (forEachSegment (markReadOnly ma) infos st) a = VM_PROT_READ"
  by (induction infos arbitrary: st) (simp_all add: markReadOnly_def mprotect_def)

lemma forEachSegment_sets_read:
  "info \<in> set infos \<Longrightarrow> readOnlyData info \<Longrightarrow> a - (loadAddress ma + vmAddr info) < vmSize info \<Longrightarrow>
     prot (forEachSegment (markReadOnly ma) infos st) a = VM_PROT_READ"
proof (induction infos arbitrary: st)
  case Nil
  then show ?case by simp
next
  case (Cons i infos)
  show ?case
  proof (cases "info = i")
    case True
    with Cons.prems have "prot (markReadOnly ma i st) a = VM_PROT_READ"
      by (simp add: markReadOnly_def mprotect_def)
    then show ?thesis by (simp add: forEachSegment_keeps_read)
  next
    case False
    with Cons show ?thesis by simp
  qed
qed

lemma not_writable_READ: "\<not> writable VM_PROT_READ"
  by (simp add: writable_def VM_PROT_READ_def VM_PROT_WRITE_def)

text \<open>How a call of \<^verbatim>\<open>rebaseDyld\<close> can end, and what it has logged by then.\<close>

lemma rebaseDyld_Inr_shape:
  assumes "rebaseDyld ma st = Inr st'"
  shows "\<exists>starts ws. chainStarts ma = Some starts \<and> list_all is_write ws \<and>
           trace st' = trace st @ [EnterRebaseDyld (loadAddress ma),
                                   FixupAllChainedFixups (loadAddress ma) 0] @ ws @ [MachInit]
                         @ protect_events ma"
proof (cases "chainStarts ma")
  case None
  with assms show ?thesis by (simp add: rebaseDyld_unchained hasChainedFixups_def)
next
  case (Some starts)
  let ?s0 = "emit (FixupAllChainedFixups (loadAddress ma) 0) (emit (EnterRebaseDyld (loadAddress ma)) st)"
  obtain r st1 where fs: "fixupSegments (loadAddress ma) (loadAddress ma) [] Some starts ?s0 = (r, st1)"
    by (cases "fixupSegments (loadAddress ma) (loadAddress ma) [] Some starts ?s0")
  from fixupSegments_shape[OF fs] obtain ws where
    ws: "list_all is_write ws" "trace st1 = trace ?s0 @ ws" by blast
  from assms Some fs have r: "r = None"
    and st': "st' = forEachSegment (markReadOnly ma) (segmentInfos ma) (mach_init st1)"
    by (auto simp: rebaseDyld_chained split: option.splits)
  have "trace st' = trace st @ [EnterRebaseDyld (loadAddress ma),
                                   FixupAllChainedFixups (loadAddress ma) 0] @ ws @ [MachInit]
                         @ protect_events ma"
    by (simp add: st' forEachSegment_trace mach_init_def emit_def ws protect_events_def)
  with Some ws show ?thesis by blast
qed

lemma rebaseDyld_Inl_shape:
  assumes "rebaseDyld ma st = Inl (f, st')"
  shows "(f = AssertHasChainedFixups \<and> \<not> hasChainedFixups ma \<and>
            st' = emit (EnterRebaseDyld (loadAddress ma)) st) \<or>
         (\<exists>e ws. f = AssertNoError e \<and> hasChainedFixups ma \<and> list_all is_write ws \<and>
            trace st' = trace st @ [EnterRebaseDyld (loadAddress ma),
                                   FixupAllChainedFixups (loadAddress ma) 0] @ ws)"
proof (cases "chainStarts ma")
  case None
  with assms show ?thesis by (simp add: rebaseDyld_unchained hasChainedFixups_def)
next
  case (Some starts)
  let ?s0 = "emit (FixupAllChainedFixups (loadAddress ma) 0) (emit (EnterRebaseDyld (loadAddress ma)) st)"
  obtain r st1 where fs: "fixupSegments (loadAddress ma) (loadAddress ma) [] Some starts ?s0 = (r, st1)"
    by (cases "fixupSegments (loadAddress ma) (loadAddress ma) [] Some starts ?s0")
  from fixupSegments_shape[OF fs] obtain ws where
    ws: "list_all is_write ws" "trace st1 = trace ?s0 @ ws" by blast
  from assms Some fs obtain e where "r = Some e" "f = AssertNoError e" "st' = st1"
    by (auto simp: rebaseDyld_chained split: option.splits)
  with ws Some show ?thesis by (auto simp: emit_def hasChainedFixups_def)
qed

lemma events_sinceI: "trace st' = trace st @ evs \<Longrightarrow> events_since st st' = evs"
  by (simp add: events_since_def)

lemma rebaseDyld_events:
  "\<exists>rest. trace (final_rebase (rebaseDyld ma st)) =
            trace st @ EnterRebaseDyld (loadAddress ma) # rest \<and> \<not> list_ex is_enter rest"
proof (cases "rebaseDyld ma st")
  case (Inl p)
  obtain f st' where p: "p = (f, st')" by (cases p)
  from rebaseDyld_Inl_shape[OF Inl[unfolded p]] show ?thesis
  proof
    assume "f = AssertHasChainedFixups \<and> \<not> hasChainedFixups ma \<and>
            st' = emit (EnterRebaseDyld (loadAddress ma)) st"
    then show ?thesis by (simp add: Inl p final_rebase_def emit_def)
  next
    assume "\<exists>e ws. f = AssertNoError e \<and> hasChainedFixups ma \<and> list_all is_write ws \<and>
            trace st' = trace st @ [EnterRebaseDyld (loadAddress ma),
                                   FixupAllChainedFixups (loadAddress ma) 0] @ ws"
    then obtain ws where ws: "list_all is_write ws"
      "trace st' = trace st @ [EnterRebaseDyld (loadAddress ma),
                                   FixupAllChainedFixups (loadAddress ma) 0] @ ws" by blast
    from ws(1) have "\<not> list_ex is_enter ws"
      by (induction ws) (auto elim: is_write.elims)
    with ws(2) show ?thesis by (simp add: Inl p final_rebase_def)
  qed
next
  case (Inr st')
  from rebaseDyld_Inr_shape[OF Inr] obtain ws where ws: "list_all is_write ws"
    "trace st' = trace st @ [EnterRebaseDyld (loadAddress ma),
                                   FixupAllChainedFixups (loadAddress ma) 0] @ ws @ [MachInit]
                         @ protect_events ma" by blast
  from ws(1) have "\<not> list_ex is_enter ws"
    by (induction ws) (auto elim: is_write.elims)
  moreover have "\<not> list_ex is_enter (protect_events ma)"
    by (simp add: protect_events_def list_ex_iff)
  ultimately show ?thesis using ws(2) by (simp add: Inr final_rebase_def)
qed

lemma start_Inr:
  assumes "start dm app argc argv ma st = Inr (v, st2)"
  shows "\<exists>st1 n. rebaseDyld ma (emit KdebugTrace st) = Inr st1 \<and>
            scan_null argv (argc + 1) = Some n \<and> v = dm app (getSlide app) \<and>
            st2 = emit (CallMain (loadAddress app) (getSlide app)) (guard_setup (Suc n) st1)"
  using assms by (auto simp: start_def Let_def split: sum.splits option.splits)

lemma start_Inl:
  assumes "start dm app argc argv ma st = Inl (f, st')"
  shows "rebaseDyld ma (emit KdebugTrace st) = Inl (f, st') \<or>
         (rebaseDyld ma (emit KdebugTrace st) = Inr st' \<and> f = StackVectorOverrun)"
  using assms by (auto simp: start_def Let_def split: sum.splits option.splits)

lemma start_sim_Inr:
  assumes "start_sim dm apple app ma sc pinfo st = Inr (v, st4)"
  shows "\<exists>st1. rebaseDyld ma
                  ((emit (WriteGlobal ''gSyscallHelpers'' sc) st)
                     \<lparr>globals := (globals st)(''gSyscallHelpers'' := sc)\<rparr>) = Inr st1 \<and>
            v = dm app (getSlide app) \<and>
            prot st4 = prot st1 \<and> mem st4 = mem st1 \<and>
            trace st4 = trace st1 @ [GuardSetup apple, WriteGlobal ''gProcessInfo'' pinfo,
                                     SyncProcessInfo, CallMain (loadAddress app) (getSlide app)]"
  using assms by (auto simp: start_sim_def Let_def emit_def guard_setup_def split: sum.splits)

lemma start_sim_Inl:
  assumes "start_sim dm apple app ma sc pinfo st = Inl (f, st')"
  shows "rebaseDyld ma
                  ((emit (WriteGlobal ''gSyscallHelpers'' sc) st)
                     \<lparr>globals := (globals st)(''gSyscallHelpers'' := sc)\<rparr>) = Inl (f, st')"
  using assms by (auto simp: start_sim_def Let_def split: sum.splits)

lemma start_events:
  "\<exists>rest. trace (final_start (start dm app argc argv ma st)) =
            trace st @ KdebugTrace # EnterRebaseDyld (loadAddress ma) # rest \<and>
          \<not> list_ex is_enter rest"
proof -
  let ?st = "emit KdebugTrace st"
  from rebaseDyld_events[of ma ?st] obtain rest where
    r: "trace (final_rebase (rebaseDyld ma ?st)) = trace ?st @ EnterRebaseDyld (loadAddress ma) # rest"
      "\<not> list_ex is_enter rest" by blast
  show ?thesis
  proof (cases "start dm app argc argv ma st")
    case (Inl p)
    obtain f st' where p: "p = (f, st')" by (cases p)
    from start_Inl[OF Inl[unfolded p]] have "final_rebase (rebaseDyld ma ?st) = st'"
      by (auto simp: final_rebase_def)
    with r show ?thesis by (simp add: Inl p final_start_def emit_def)
  next
    case (Inr p)
    obtain v st2 where p: "p = (v, st2)" by (cases p)
    from start_Inr[OF Inr[unfolded p]] obtain st1 n where
      s: "rebaseDyld ma ?st = Inr st1"
         "st2 = emit (CallMain (loadAddress app) (getSlide app)) (guard_setup (Suc n) st1)"
      by blast
    from s(1) r have "trace st1 = trace ?st @ EnterRebaseDyld (loadAddress ma) # rest"
      by (simp add: final_rebase_def)
    with r(2) s(2) show ?thesis
      by (simp add: Inr p final_start_def emit_def guard_setup_def)
  qed
qed

lemma start_sim_events:
  "\<exists>rest. trace (final_start (start_sim dm apple app ma sc pinfo st)) =
            trace st @ WriteGlobal ''gSyscallHelpers'' sc # EnterRebaseDyld (loadAddress ma) # rest \<and>
          \<not> list_ex is_enter rest"
proof -
  let ?st = "(emit (WriteGlobal ''gSyscallHelpers'' sc) st)
                     \<lparr>globals := (globals st)(''gSyscallHelpers'' := sc)\<rparr>"
  from rebaseDyld_events[of ma ?st] obtain rest where
    r: "trace (final_rebase (rebaseDyld ma ?st)) = trace ?st @ EnterRebaseDyld (loadAddress ma) # rest"
      "\<not> list_ex is_enter rest" by blast
  show ?thesis
  proof (cases "start_sim dm apple app ma sc pinfo st")
    case (Inl p)
    obtain f st' where p: "p = (f, st')" by (cases p)
    from start_sim_Inl[OF Inl[unfolded p]] have "final_rebase (rebaseDyld ma ?st) = st'"
      by (auto simp: final_rebase_def)
    with r show ?thesis by (simp add: Inl p final_start_def emit_def)
  next
    case (Inr p)
    obtain v st4 where p: "p = (v, st4)" by (cases p)
    from start_sim_Inr[OF Inr[unfolded p]] obtain st1 where
      s: "rebaseDyld ma ?st = Inr st1"
         "trace st4 = trace st1 @ [GuardSetup apple, WriteGlobal ''gProcessInfo'' pinfo,
                                     SyncProcessInfo, CallMain (loadAddress app) (getSlide app)]"
      by blast
    from s(1) r have "trace st1 = trace ?st @ EnterRebaseDyld (loadAddress ma) # rest"
      by (simp add: final_rebase_def)
    with r(2) s(2) show ?thesis
      by (simp add: Inr p final_start_def emit_def)
  qed
qed

subsection \<open>The example image, run\<close>

lemma example_rebaseDyld:
  "rebaseDyld example_dyld boot_machine =
     Inr \<lparr>mem = (\<lambda>a. if a = 0x5008 then 0x1030 else if a = 0x5000 then 0x1020 else 0),
          prot = (\<lambda>a. if a - 0x6000 < 0x1000 then 1 else 3),
          globals = (\<lambda>g. 0),
          trace = [EnterRebaseDyld 0x1000, FixupAllChainedFixups 0x1000 0,
                   WriteSlot 0x5000 0x1020, WriteSlot 0x5008 0x1030, MachInit,
                   Mprotect 0x6000 0x1000 1]\<rparr>"
  by (simp add: rebaseDyld_def example_dyld_def boot_machine_def Let_def hasChainedFixups_def
      withChainStarts_def fixupAllChainedFixups_def apply_chain_def resolve_entry_def
      slot_in_segment_def write_slot_def emit_def mach_init_def markReadOnly_def mprotect_def
      VM_PROT_READ_def fun_eq_iff)

lemma trace_boot_machine: "trace boot_machine = []"
  by (simp add: boot_machine_def)

lemma example_events:
  "events_since boot_machine (final_rebase (rebaseDyld example_dyld boot_machine)) =
     [EnterRebaseDyld 0x1000, FixupAllChainedFixups 0x1000 0,
      WriteSlot 0x5000 0x1020, WriteSlot 0x5008 0x1030, MachInit,
      Mprotect 0x6000 0x1000 1]"
  by (simp add: example_rebaseDyld final_rebase_def events_since_def trace_boot_machine)

lemma example_unchained_rebaseDyld:
  "rebaseDyld example_unchained boot_machine =
     Inl (AssertHasChainedFixups, boot_machine\<lparr>trace := [EnterRebaseDyld 0x1000]\<rparr>)"
  by (simp add: rebaseDyld_def example_unchained_def example_dyld_def hasChainedFixups_def
      Let_def emit_def trace_boot_machine)

lemma example_bound_rebaseDyld:
  "rebaseDyld example_bound boot_machine =
     Inl (AssertNoError MalformedFixupChain,
          boot_machine\<lparr>trace := [EnterRebaseDyld 0x1000, FixupAllChainedFixups 0x1000 0]\<rparr>)"
  by (simp add: rebaseDyld_def example_bound_def example_dyld_def hasChainedFixups_def
      Let_def emit_def trace_boot_machine withChainStarts_def fixupAllChainedFixups_def
      apply_chain_def resolve_entry_def slot_in_segment_def)

subsection \<open>Slides, globals and protections\<close>

lemma fixup_slides_writes: "list_all is_write ws \<Longrightarrow> fixup_slides ws = []"
  by (induction ws) (auto simp: fixup_slides_def map_filter_def elim: is_write.elims)

lemma fixup_slides_append: "fixup_slides (xs @ ys) = fixup_slides xs @ fixup_slides ys"
  by (simp add: fixup_slides_def map_filter_def)

lemma fixup_slides_protect: "fixup_slides (protect_events ma) = []"
  by (simp add: fixup_slides_def protect_events_def map_filter_def)

lemma rebaseDyld_globals: "globals (final_rebase (rebaseDyld ma st)) = globals st"
proof (cases "chainStarts ma")
  case None
  then show ?thesis
    by (simp add: rebaseDyld_unchained hasChainedFixups_def final_rebase_def emit_def)
next
  case (Some starts)
  let ?s0 = "emit (FixupAllChainedFixups (loadAddress ma) 0)
               (emit (EnterRebaseDyld (loadAddress ma)) st)"
  obtain r st1 where fs: "fixupSegments (loadAddress ma) (loadAddress ma) [] Some starts ?s0 = (r, st1)"
    by (cases "fixupSegments (loadAddress ma) (loadAddress ma) [] Some starts ?s0")
  from fixupSegments_shape[OF fs] have "globals st1 = globals st"
    by (simp add: emit_def)
  with Some fs show ?thesis
    by (cases r)
      (simp_all add: rebaseDyld_chained final_rebase_def forEachSegment_globals mach_init_def
        emit_def)
qed

lemma rebaseDyld_Inr_prot:
  assumes "rebaseDyld ma st = Inr st'"
    and "info \<in> set (segmentInfos ma)" and "readOnlyData info"
    and "a - (loadAddress ma + vmAddr info) < vmSize info"
  shows "prot st' a = VM_PROT_READ"
proof (cases "chainStarts ma")
  case None
  with assms(1) show ?thesis by (simp add: rebaseDyld_unchained hasChainedFixups_def)
next
  case (Some starts)
  with assms(1) obtain st1 where
    "st' = forEachSegment (markReadOnly ma) (segmentInfos ma) (mach_init st1)"
    by (auto simp: rebaseDyld_chained split: prod.splits option.splits)
  with assms(2-4) show ?thesis by (simp add: forEachSegment_sets_read)
qed

lemma example_scan_null: "scan_null example_argv (Suc (Suc 0)) = Some 3"
  apply (subst scan_null.simps)
  apply (subst scan_null.simps)
  apply (simp add: example_argv_def numeral_3_eq_3)
  done

lemma example_start_returns:
  "\<exists>v st2. start example_main example_app 1 example_argv example_dyld boot_machine = Inr (v, st2)"
proof -
  have "\<exists>st1. rebaseDyld example_dyld (emit KdebugTrace boot_machine) = Inr st1"
    by (simp add: rebaseDyld_def example_dyld_def Let_def hasChainedFixups_def
        withChainStarts_def fixupAllChainedFixups_def apply_chain_def resolve_entry_def
        slot_in_segment_def)
  then show ?thesis
    by (auto simp: start_def Let_def example_scan_null)
qed

lemma example_start_sim_returns:
  "\<exists>v st3. start_sim example_main 4 example_app example_dyld 0x7000 0x8000 boot_machine
             = Inr (v, st3)"
proof -
  have "\<exists>st1. rebaseDyld example_dyld
          ((emit (WriteGlobal ''gSyscallHelpers'' 0x7000) boot_machine)
             \<lparr>globals := (globals boot_machine)(''gSyscallHelpers'' := 0x7000)\<rparr>) = Inr st1"
    by (simp add: rebaseDyld_def example_dyld_def Let_def hasChainedFixups_def
        withChainStarts_def fixupAllChainedFixups_def apply_chain_def resolve_entry_def
        slot_in_segment_def)
  then show ?thesis
    by (auto simp: start_sim_def Let_def)
qed

subsection \<open>The decoder\<close>

lemma resolve_entry_failure:
  assumes "resolve_entry extent slide symtab resolver d = Inl e"
  shows "e = MalformedFixupChain \<or>
         (\<exists>ord off. e = UnresolvedSymbol ord off \<and> ord < length symtab \<and>
                    resolver (symtab ! ord) = None)"
  using assms
  by (auto simp: resolve_entry_def split: if_splits fixup_kind.splits option.splits)

lemma resolve_entry_rejects:
  assumes "\<not> slot_in_segment extent (slot_offset d) \<or>
           (\<exists>ord addend. slot_kind d = Bind ord addend \<and> length symtab \<le> ord)"
  shows "resolve_entry extent slide symtab resolver d = Inl MalformedFixupChain"
  using assms by (auto simp: resolve_entry_def)

lemma resolve_entry_rebase:
  assumes "resolve_entry extent slide symtab resolver d = Inr w" and "slot_kind d = Rebase T"
  shows "w = (slot_offset d, T + slide)"
  using assms by (auto simp: resolve_entry_def split: if_splits)

lemma resolve_entry_offset:
  assumes "resolve_entry extent slide symtab resolver d = Inr w"
  shows "fst w = slot_offset d"
  using assms
  by (auto simp: resolve_entry_def split: if_splits fixup_kind.splits option.splits)

lemma decode_chain_failure:
  assumes "decode_chain extent slide symtab resolver ds = Inl e"
  shows "e = MalformedFixupChain \<or>
         (\<exists>ord off. e = UnresolvedSymbol ord off \<and> ord < length symtab \<and>
                    resolver (symtab ! ord) = None)"
  using assms
proof (induction ds)
  case Nil
  then show ?case by simp
next
  case (Cons d ds)
  show ?case
  proof (cases "resolve_entry extent slide symtab resolver d")
    case (Inl e')
    with Cons.prems have "e' = e" by simp
    with Inl resolve_entry_failure show ?thesis by blast
  next
    case (Inr w)
    with Cons.prems have "decode_chain extent slide symtab resolver ds = Inl e"
      by (simp split: sum.splits)
    then show ?thesis by (rule Cons.IH)
  qed
qed

lemma decode_chain_rejects:
  assumes "d \<in> set ds"
    and "\<not> slot_in_segment extent (slot_offset d) \<or>
         (\<exists>ord addend. slot_kind d = Bind ord addend \<and> length symtab \<le> ord)"
  shows "\<exists>e. decode_chain extent slide symtab resolver ds = Inl e"
  using assms
proof (induction ds)
  case Nil
  then show ?case by simp
next
  case (Cons x xs)
  show ?case
  proof (cases "x = d")
    case True
    with Cons.prems(2) show ?thesis by (simp add: resolve_entry_rejects)
  next
    case False
    with Cons have "\<exists>e. decode_chain extent slide symtab resolver xs = Inl e" by simp
    then show ?thesis by (auto split: sum.splits)
  qed
qed

lemma decode_chain_offsets:
  "decode_chain extent slide symtab resolver ds = Inr ws \<Longrightarrow> map fst ws = map slot_offset ds"
proof (induction ds arbitrary: ws)
  case Nil
  then show ?case by simp
next
  case (Cons d ds)
  then show ?case
    by (auto split: sum.splits dest: resolve_entry_offset)
qed

lemma decode_chain_rebase:
  "decode_chain extent slide symtab resolver ds = Inr ws \<Longrightarrow> d \<in> set ds \<Longrightarrow>
     slot_kind d = Rebase T \<Longrightarrow> (slot_offset d, T + slide) \<in> set ws"
proof (induction ds arbitrary: ws)
  case Nil
  then show ?case by simp
next
  case (Cons x xs)
  then show ?case
    by (auto split: sum.splits dest: resolve_entry_rebase)
qed

lemma mem_foldl_write_other:
  "a \<notin> (\<lambda>w. b + fst w) ` set ws \<Longrightarrow> mem (foldl (write_slot b) st ws) a = mem st a"
  by (induction ws arbitrary: st) (auto simp: write_slot_def)

lemma mem_foldl_write_distinct:
  "distinct (map (\<lambda>w. b + fst w) ws) \<Longrightarrow> w \<in> set ws \<Longrightarrow>
     mem (foldl (write_slot b) st ws) (b + fst w) = snd w"
proof (induction ws arbitrary: st)
  case Nil
  then show ?case by simp
next
  case (Cons x xs)
  show ?case
  proof (cases "w = x")
    case True
    with Cons.prems(1) have "b + fst w \<notin> (\<lambda>w. b + fst w) ` set xs" by simp
    then have "mem (foldl (write_slot b) (write_slot b st x) xs) (b + fst w) =
               mem (write_slot b st x) (b + fst w)"
      by (rule mem_foldl_write_other)
    moreover have "mem (write_slot b st x) (b + fst x) = snd x"
      by (simp add: write_slot_def)
    ultimately show ?thesis using True by simp
  next
    case False
    with Cons show ?thesis by simp
  qed
qed

lemma apply_chain_mem_other:
  assumes "apply_chain b x s tab r ds st = (res, st')"
    and "a \<notin> (\<lambda>d. b + slot_offset d) ` set ds"
  shows "mem st' a = mem st a"
proof (cases "decode_chain x s tab r ds")
  case (Inl e)
  with assms(1) show ?thesis by (simp add: apply_chain_def)
next
  case (Inr ws)
  from decode_chain_offsets[OF Inr] have "fst ` set ws = slot_offset ` set ds"
    by (metis set_map)
  with assms(2) have "a \<notin> (\<lambda>w. b + fst w) ` set ws" by force
  with assms(1) Inr show ?thesis by (auto simp: apply_chain_def mem_foldl_write_other)
qed

lemma apply_chain_mem_rebase:
  assumes "apply_chain b x s tab r ds st = (None, st')"
    and "distinct (map (\<lambda>d. b + slot_offset d) ds)"
    and "d \<in> set ds" and "slot_kind d = Rebase T"
  shows "mem st' (b + slot_offset d) = T + s"
proof (cases "decode_chain x s tab r ds")
  case (Inl e)
  with assms(1) show ?thesis by (simp add: apply_chain_def)
next
  case (Inr ws)
  from decode_chain_offsets[OF Inr] have "map (\<lambda>w. b + fst w) ws = map (\<lambda>d. b + slot_offset d) ds"
    by (metis (no_types, lifting) map_map o_def map_eq_conv)
  with assms(2) have dist: "distinct (map (\<lambda>w. b + fst w) ws)" by simp
  from decode_chain_rebase[OF Inr assms(3,4)] have "(slot_offset d, T + s) \<in> set ws" .
  from mem_foldl_write_distinct[OF dist this, of st] assms(1) Inr show ?thesis
    by (simp add: apply_chain_def)
qed

subsection \<open>All segments of an image\<close>

lemma fixupSegments_mem_other:
  "fixupSegments ib s tg Some ss st = (res, st') \<Longrightarrow> a \<notin> set (slot_addresses ib ss) \<Longrightarrow>
     mem st' a = mem st a"
proof (induction ss arbitrary: st)
  case Nil
  then show ?case by simp
next
  case (Cons c cs)
  obtain r1 st1 where ac:
    "apply_chain (ib + segment_offset c) (segment_extent c) s tg Some (chain_entries c) st = (r1, st1)"
    by (cases "apply_chain (ib + segment_offset c) (segment_extent c) s tg Some (chain_entries c) st")
  from Cons.prems(2) have
    n1: "a \<notin> (\<lambda>d. ib + segment_offset c + slot_offset d) ` set (chain_entries c)"
    and n2: "a \<notin> set (slot_addresses ib cs)"
    by (auto simp: slot_addresses_def)
  from apply_chain_mem_other[OF ac n1] have m1: "mem st1 a = mem st a" .
  show ?case
  proof (cases r1)
    case None
    with Cons.prems(1) ac have "fixupSegments ib s tg Some cs st1 = (res, st')" by simp
    from Cons.IH[OF this n2] m1 show ?thesis by simp
  next
    case (Some e)
    with Cons.prems(1) ac have "st' = st1" by simp
    with m1 show ?thesis by simp
  qed
qed

lemma fixupSegments_mem_rebase:
  "fixupSegments ib s tg Some ss st = (None, st') \<Longrightarrow> distinct (slot_addresses ib ss) \<Longrightarrow>
     c \<in> set ss \<Longrightarrow> d \<in> set (chain_entries c) \<Longrightarrow> slot_kind d = Rebase T \<Longrightarrow>
     mem st' (ib + segment_offset c + slot_offset d) = T + s"
proof (induction ss arbitrary: st)
  case Nil
  then show ?case by simp
next
  case (Cons x xs)
  obtain r1 st1 where ac:
    "apply_chain (ib + segment_offset x) (segment_extent x) s tg Some (chain_entries x) st = (r1, st1)"
    by (cases "apply_chain (ib + segment_offset x) (segment_extent x) s tg Some (chain_entries x) st")
  from Cons.prems(1) ac have r1: "r1 = None" and rest: "fixupSegments ib s tg Some xs st1 = (None, st')"
    by (auto split: option.splits)
  from Cons.prems(2) have
    d1: "distinct (map (\<lambda>d. ib + segment_offset x + slot_offset d) (chain_entries x))"
    and d2: "distinct (slot_addresses ib xs)"
    and d3: "(\<lambda>d. ib + segment_offset x + slot_offset d) ` set (chain_entries x)
               \<inter> set (slot_addresses ib xs) = {}"
    by (auto simp: slot_addresses_def)
  show ?case
  proof (cases "c \<in> set xs")
    case True
    from Cons.IH[OF rest d2 True Cons.prems(4,5)] show ?thesis .
  next
    case False
    with Cons.prems(3) have cx: "c = x" by simp
    from apply_chain_mem_rebase[OF ac[unfolded r1] d1 Cons.prems(4)[unfolded cx] Cons.prems(5)]
    have "mem st1 (ib + segment_offset x + slot_offset d) = T + s" .
    moreover from d3 Cons.prems(4) cx
    have "ib + segment_offset x + slot_offset d \<notin> set (slot_addresses ib xs)" by blast
    from fixupSegments_mem_other[OF rest this]
    have "mem st' (ib + segment_offset x + slot_offset d) =
          mem st1 (ib + segment_offset x + slot_offset d)" .
    ultimately show ?thesis using cx by simp
  qed
qed

lemma decode_chain_no_targets:
  "decode_chain extent slide [] resolver ds = Inl e \<Longrightarrow> e = MalformedFixupChain"
  by (drule decode_chain_failure) auto

lemma fixupSegments_no_targets_failure:
  "fixupSegments ib s [] Some ss st = (Some e, st') \<Longrightarrow> e = MalformedFixupChain"
proof (induction ss arbitrary: st)
  case Nil
  then show ?case by simp
next
  case (Cons c cs)
  show ?case
  proof (cases "decode_chain (segment_extent c) s ([]::addr list) Some (chain_entries c)")
    case (Inl e')
    with Cons.prems show ?thesis
      by (auto simp: apply_chain_def dest: decode_chain_no_targets)
  next
    case (Inr ws)
    with Cons.prems Cons.IH show ?thesis by (auto simp: apply_chain_def)
  qed
qed

lemma fixupSegments_failure:
  "c \<in> set ss \<Longrightarrow> decode_chain (segment_extent c) s tg Some (chain_entries c) = Inl e \<Longrightarrow>
     \<exists>e' st'. fixupSegments ib s tg Some ss st = (Some e', st')"
proof (induction ss arbitrary: st)
  case Nil
  then show ?case by simp
next
  case (Cons x xs)
  show ?case
  proof (cases "decode_chain (segment_extent x) s tg Some (chain_entries x)")
    case (Inl e')
    then show ?thesis by (simp add: apply_chain_def)
  next
    case (Inr ws)
    with Cons.prems have "c \<in> set xs" by auto
    from Cons.IH[OF this Cons.prems(2)] Inr show ?thesis by (simp add: apply_chain_def)
  qed
qed

section \<open>Properties of the load engine\<close>

subsection \<open>Reference counts and residency are undone by Unwind\<close>

lemma release_retain: "release_image q (retain_image q reg) = reg"
  by (induction reg) (simp_all add: release_image_def retain_image_def)

lemma fold_release_retain:
  "fold release_image (rev qs) (fold retain_image qs reg) = reg"
  by (induction qs arbitrary: reg) (simp_all add: release_retain)

lemma fold_remove1_prefix: "fold remove1 qs (qs @ r) = r"
  by (induction qs) simp_all

lemma paths_retain: "map image_path (retain_image q reg) = map image_path reg"
  by (induction reg) (simp_all add: retain_image_def)

lemma paths_fold_retain: "map image_path (fold retain_image qs reg) = map image_path reg"
  by (induction qs arbitrary: reg) (simp_all add: paths_retain)

lemma txn_inv_begin: "txn_inv p (begin_transaction p)"
  by (simp add: txn_inv_def begin_transaction_def)

lemma registered_txn: "txn_inv p t \<Longrightarrow> registered (txn_process t) q = registered p q"
proof -
  assume "txn_inv p t"
  then have "map image_path (registry (txn_process t)) = map image_path (registry p)"
    by (simp add: txn_inv_def paths_fold_retain)
  then have "image_path ` set (registry (txn_process t)) = image_path ` set (registry p)"
    by (metis set_map)
  then show ?thesis by (simp add: registered_def)
qed

lemma txn_inv_reuse: "txn_inv p t \<Longrightarrow> txn_inv p (reuse q t)"
  by (simp add: txn_inv_def reuse_def)

lemma txn_inv_map_new_image:
  "txn_inv p t \<Longrightarrow> \<not> registered p q \<Longrightarrow> txn_inv p (map_new_image q t)"
  by (auto simp: txn_inv_def map_new_image_def)

lemma txn_inv_new_node:
  "txn_inv p t \<Longrightarrow> q \<in> set (introduced t) \<Longrightarrow>
     txn_inv p (t\<lparr>new_nodes := new_nodes t @ [new_image q b]\<rparr>)"
  by (auto simp: txn_inv_def new_image_def)

lemma introduced_grows_reuse: "set (introduced t) \<subseteq> set (introduced (reuse q t))"
  by (simp add: reuse_def)

text \<open>The resolver keeps the invariant, whether it fails or not.\<close>

lemma resolver_invariant:
  "(txn_inv p t \<longrightarrow> resolver_keeps p t (resolve_image w stack q t))"
  "(txn_inv p t \<longrightarrow> resolver_keeps p t (resolve_all w stack ds t))"
proof (induction w stack q t and w stack ds t rule: resolve_image_resolve_all.induct)
  case (1 w stack q t)
  show ?case
  proof
    assume inv: "txn_inv p t"
    show "resolver_keeps p t (resolve_image w stack q t)"
    proof (cases "registered (txn_process t) q")
      case True
      with inv show ?thesis
        by (simp add: resolve_image.simps resolver_keeps_def txn_inv_reuse introduced_grows_reuse)
    next
      case nreg: False
      show ?thesis
      proof (cases "q \<in> set stack \<or> q \<in> set (introduced t)")
        case True
        with nreg inv show ?thesis
          by (auto simp: resolve_image.simps resolver_keeps_def)
      next
        case fresh: False
        show ?thesis
        proof (cases "map_of (files w) q")
          case None
          with nreg fresh inv show ?thesis
            by (simp add: resolve_image.simps resolver_keeps_def)
        next
          case (Some b)
          show ?thesis
          proof (cases "compatible w (requester stack) b")
            case False
            with nreg fresh Some inv show ?thesis
              by (simp add: resolve_image.simps resolver_keeps_def)
          next
            case True
            from nreg inv have "\<not> registered p q" by (simp add: registered_txn)
            with inv have inv': "txn_inv p (map_new_image q t)"
              by (rule txn_inv_map_new_image)
            from nreg fresh Some True "1.IH" inv'
            have k: "resolver_keeps p (map_new_image q t)
                       (resolve_all w (q # stack) (dependencies b) (map_new_image q t))"
              by simp
            have sub: "set (introduced t) \<subseteq> set (introduced (map_new_image q t))"
              and qin: "q \<in> set (introduced (map_new_image q t))"
              by (auto simp: map_new_image_def)
            show ?thesis
            proof (cases "resolve_all w (q # stack) (dependencies b) (map_new_image q t)")
              case (Inl f)
              with k sub nreg fresh Some True show ?thesis
                by (auto simp: resolve_image.simps resolver_keeps_def split: prod.splits)
            next
              case (Inr t')
              with k have i: "txn_inv p t'" and
                s: "set (introduced (map_new_image q t)) \<subseteq> set (introduced t')"
                by (auto simp: resolver_keeps_def)
              from qin s have "q \<in> set (introduced t')" by blast
              from txn_inv_new_node[OF i this, of b] s sub Inr nreg fresh Some True
              show ?thesis
                by (auto simp: resolve_image.simps resolver_keeps_def)
            qed
          qed
        qed
      qed
    qed
  qed
next
  case (2 w stack t)
  then show ?case by (simp add: resolver_keeps_def)
next
  case (3 w stack d ds t)
  show ?case
  proof
    assume inv: "txn_inv p t"
    with "3.IH"(1) have k1: "resolver_keeps p t (resolve_image w stack d t)" by simp
    show "resolver_keeps p t (resolve_all w stack (d # ds) t)"
    proof (cases "resolve_image w stack d t")
      case (Inl f)
      with k1 show ?thesis by (simp add: resolver_keeps_def)
    next
      case (Inr t')
      with k1 have i: "txn_inv p t'" and s: "set (introduced t) \<subseteq> set (introduced t')"
        by (auto simp: resolver_keeps_def)
      from "3.IH"(2)[OF Inr] i have "resolver_keeps p t' (resolve_all w stack ds t')" by simp
      with s Inr show ?thesis
        by (auto simp: resolver_keeps_def split: sum.splits prod.splits)
    qed
  qed
qed

subsection \<open>The steps after Collect touch neither registry nor rollback lists\<close>

lemma keeps_map_node: "keeps_image (map_node w)"
  by (auto simp: keeps_image_def map_node_def same_image_def split: option.splits)

lemma keeps_rebase_node: "keeps_image rebase_node"
  by (auto simp: keeps_image_def rebase_node_def same_image_def split: option.splits prod.splits)

lemma keeps_bind_node: "keeps_image (bind_node imgs)"
  by (auto simp: keeps_image_def bind_node_def same_image_def split: option.splits prod.splits)

lemma keeps_initialize_node: "keeps_image (initialize_node w)"
  by (auto simp: keeps_image_def initialize_node_def same_image_def split: if_splits)

lemma each_node_same:
  "keeps_image f \<Longrightarrow> each_node f ns m = Inr (ns', m') \<Longrightarrow> list_all2 same_image ns ns'"
proof (induction ns arbitrary: m ns')
  case Nil
  then show ?case by simp
next
  case (Cons n ns)
  from Cons.prems(2) obtain n1 m1 ns1 where
    f: "f n m = Inr (n1, m1)" and r: "each_node f ns m1 = Inr (ns1, m')" and e: "ns' = n1 # ns1"
    by (auto split: sum.splits prod.splits)
  from Cons.prems(1) f have "same_image n n1" by (auto simp: keeps_image_def)
  with Cons.IH[OF Cons.prems(1) r] e show ?case by simp
qed

lemma run_step_books:
  "run_step f t = Inr t' \<Longrightarrow> same_books t t'"
  "run_step f t = Inl (e, q, t') \<Longrightarrow> same_books t t' \<and> new_nodes t' = new_nodes t"
  by (auto simp: run_step_def with_memory_def same_books_def split: sum.splits prod.splits)

lemma run_step_nodes:
  "keeps_image f \<Longrightarrow> run_step f t = Inr t' \<Longrightarrow> list_all2 same_image (new_nodes t) (new_nodes t')"
  by (auto simp: run_step_def with_memory_def split: sum.splits prod.splits dest: each_node_same)

lemma same_image_paths:
  "list_all2 same_image ns ns' \<Longrightarrow> map image_path ns' = map image_path ns"
  by (induction rule: list_all2_induct) (simp_all add: same_image_def)

lemma same_books_trans: "same_books t t' \<Longrightarrow> same_books t' t'' \<Longrightarrow> same_books t t''"
  by (simp add: same_books_def)

lemma txn_inv_same_books:
  "txn_inv p t \<Longrightarrow> same_books t t' \<Longrightarrow> image_path ` set (new_nodes t') = image_path ` set (new_nodes t) \<Longrightarrow>
     txn_inv p t'"
  by (simp add: txn_inv_def same_books_def)

lemma run_step_inv:
  assumes "keeps_image f" and "txn_inv p t"
  shows "run_step f t = Inr t' \<Longrightarrow> txn_inv p t' \<and> introduced t' = introduced t"
    and "run_step f t = Inl (e, q, t') \<Longrightarrow> txn_inv p t' \<and> introduced t' = introduced t"
proof -
  assume r: "run_step f t = Inr t'"
  from run_step_nodes[OF assms(1) r] have "map image_path (new_nodes t') = map image_path (new_nodes t)"
    by (rule same_image_paths)
  then have "image_path ` set (new_nodes t') = image_path ` set (new_nodes t)"
    by (metis set_map)
  with run_step_books(1)[OF r] assms(2) show "txn_inv p t' \<and> introduced t' = introduced t"
    by (auto intro: txn_inv_same_books simp: same_books_def)
next
  assume r: "run_step f t = Inl (e, q, t')"
  from run_step_books(2)[OF r] assms(2) show "txn_inv p t' \<and> introduced t' = introduced t"
    by (auto intro: txn_inv_same_books simp: same_books_def)
qed

lemma unwind_restores:
  "txn_inv p t \<Longrightarrow> registry (unwind t) = registry p \<and> resident (unwind t) = resident p"
  by (simp add: txn_inv_def unwind_def fold_release_retain fold_remove1_prefix)

text \<open>However a transaction ends, the invariant holds of its last state.\<close>

lemma run_transaction_inv: "txn_inv p (final_txn (run_transaction w p roots))"
proof -
  let ?c = "resolve_all w [] roots (begin_transaction p)"
  from resolver_invariant(2)[of p "begin_transaction p" w "[]" roots] txn_inv_begin[of p]
  have k: "resolver_keeps p (begin_transaction p) ?c" by simp
  show ?thesis
  proof (cases ?c)
    case (Inl f)
    with k show ?thesis
      by (auto simp: run_transaction_def final_txn_def resolver_keeps_def split: prod.splits)
  next
    case c: (Inr t0)
    with k have i0: "txn_inv p t0" by (simp add: resolver_keeps_def)
    show ?thesis
    proof (cases "run_step (map_node w) t0")
      case (Inl f)
      obtain e q t' where f: "f = (e, q, t')" by (cases f)
      from run_step_inv(2)[OF keeps_map_node i0 Inl[unfolded f]] c Inl f show ?thesis
        by (simp add: run_transaction_def final_txn_def)
    next
      case m: (Inr t1)
      from run_step_inv(1)[OF keeps_map_node i0 m] have i1: "txn_inv p t1" by simp
      show ?thesis
      proof (cases "run_step rebase_node t1")
        case (Inl f)
        obtain e q t' where f: "f = (e, q, t')" by (cases f)
        from run_step_inv(2)[OF keeps_rebase_node i1 Inl[unfolded f]] c m Inl f show ?thesis
          by (simp add: run_transaction_def final_txn_def)
      next
        case r: (Inr t2)
        from run_step_inv(1)[OF keeps_rebase_node i1 r] have i2: "txn_inv p t2" by simp
        show ?thesis
        proof (cases "bind_step t2")
          case (Inl f)
          obtain e q t' where f: "f = (e, q, t')" by (cases f)
          from run_step_inv(2)[OF keeps_bind_node i2 Inl[unfolded f bind_step_def]] c m r Inl f
          show ?thesis
            by (simp add: run_transaction_def final_txn_def)
        next
          case b: (Inr t3)
          from run_step_inv(1)[OF keeps_bind_node i2 b[unfolded bind_step_def]]
          have i3: "txn_inv p t3" by simp
          show ?thesis
          proof (cases "run_step (initialize_node w) t3")
            case (Inl f)
            obtain e q t' where f: "f = (e, q, t')" by (cases f)
            from run_step_inv(2)[OF keeps_initialize_node i3 Inl[unfolded f]] c m r b Inl f
            show ?thesis
              by (simp add: run_transaction_def final_txn_def)
          next
            case (Inr t4)
            from run_step_inv(1)[OF keeps_initialize_node i3 Inr] c m r b Inr show ?thesis
              by (simp add: run_transaction_def final_txn_def)
          qed
        qed
      qed
    qed
  qed
qed

text \<open>A load that fails leaves registry and residency as they were.\<close>

lemma load_failure_clean:
  assumes "fst (load w p identifier) = Failed e q"
  shows "registry (snd (load w p identifier)) = registry p"
    and "resident (snd (load w p identifier)) = resident p"
    and "\<forall>x \<in> set (introduced_paths w p identifier). \<not> registered p x"
proof -
  from assms obtain t where rt: "run_transaction w p [identifier] = Inl (e, q, t)"
    by (auto simp: load_def split: sum.splits prod.splits)
  from run_transaction_inv[of p w "[identifier]"] rt have inv: "txn_inv p t"
    by (simp add: final_txn_def)
  from unwind_restores[OF inv] rt
  show "registry (snd (load w p identifier)) = registry p"
    and "resident (snd (load w p identifier)) = resident p"
    by (simp_all add: load_def)
  from inv rt show "\<forall>x \<in> set (introduced_paths w p identifier). \<not> registered p x"
    by (simp add: introduced_paths_def txn_inv_def)
qed

subsection \<open>An image that cannot bind stops the transaction\<close>

lemma decode_chain_entries:
  "decode_chain x s tab r ds = Inr ws \<Longrightarrow> d \<in> set ds \<Longrightarrow> \<exists>w. resolve_entry x s tab r d = Inr w"
proof (induction ds arbitrary: ws)
  case Nil
  then show ?case by simp
next
  case (Cons a ds)
  then show ?case by (auto split: sum.splits)
qed

lemma resolve_entry_bind:
  assumes "resolve_entry x s tab r d = Inr w" and "slot_kind d = Bind ordinal addend"
  shows "slot_in_segment x (slot_offset d) \<and> ordinal < length tab \<and> r (tab ! ordinal) \<noteq> None"
  using assms by (auto simp: resolve_entry_def split: if_splits option.splits)

lemma fixupSegments_decodes:
  "fixupSegments ib s tab r ss st = (None, st') \<Longrightarrow> c \<in> set ss \<Longrightarrow>
     \<exists>ws. decode_chain (segment_extent c) s tab r (chain_entries c) = Inr ws"
proof (induction ss arbitrary: st)
  case Nil
  then show ?case by simp
next
  case (Cons a ss)
  show ?case
  proof (cases "decode_chain (segment_extent a) s tab r (chain_entries a)")
    case (Inl e)
    with Cons.prems(1) show ?thesis by (simp add: apply_chain_def)
  next
    case (Inr ws)
    with Cons.prems(1) have
      "fixupSegments ib s tab r ss (foldl (write_slot (ib + segment_offset a)) st ws) = (None, st')"
      by (simp add: apply_chain_def)
    from Cons.IH[OF this] Cons.prems(2) Inr show ?thesis by auto
  qed
qed

lemma bind_node_can_bind:
  assumes "bind_node imgs n m = Inr (n', m')"
  shows "can_bind imgs n"
proof -
  let ?b = "image_binary n"
  let ?r = "resolve_symbol imgs (dependencies ?b)"
  from assms have ok:
    "fixupSegments (image_base n) (image_slide n) (external_symbols ?b) ?r
       (only_entries (\<lambda>d. \<not> is_rebase d) (fixup_starts ?b)) m = (None, m')"
    by (auto simp: bind_node_def split: prod.splits option.splits)
  have "entry_binds imgs ?b (segment_extent c) d"
    if c: "c \<in> set (fixup_starts ?b)" and d: "d \<in> set (chain_entries c)" for c d
  proof (cases "slot_kind d")
    case (Rebase target)
    then show ?thesis by (simp add: entry_binds_def)
  next
    case (Bind ordinal addend)
    let ?c = "c\<lparr>chain_entries := filter (\<lambda>d. \<not> is_rebase d) (chain_entries c)\<rparr>"
    from c have "?c \<in> set (only_entries (\<lambda>d. \<not> is_rebase d) (fixup_starts ?b))"
      by (auto simp: only_entries_def)
    from fixupSegments_decodes[OF ok this] obtain ws where
      dc: "decode_chain (segment_extent c) (image_slide n) (external_symbols ?b) ?r
             (filter (\<lambda>d. \<not> is_rebase d) (chain_entries c)) = Inr ws"
      by auto
    from d Bind have "d \<in> set (filter (\<lambda>d. \<not> is_rebase d) (chain_entries c))" by simp
    from decode_chain_entries[OF dc this] obtain w where
      "resolve_entry (segment_extent c) (image_slide n) (external_symbols ?b) ?r d = Inr w" ..
    from resolve_entry_bind[OF this Bind] Bind show ?thesis by (simp add: entry_binds_def)
  qed
  then show ?thesis by (simp add: can_bind_def list_all_iff)
qed

lemma each_node_can_bind:
  "each_node (bind_node imgs) ns m = Inr (ns', m') \<Longrightarrow> n \<in> set ns \<Longrightarrow> can_bind imgs n"
proof (induction ns arbitrary: m ns')
  case Nil
  then show ?case by simp
next
  case (Cons a ns)
  from Cons.prems(1) obtain a1 m1 ns1 where
    f: "bind_node imgs a m = Inr (a1, m1)" and r: "each_node (bind_node imgs) ns m1 = Inr (ns1, m')"
    by (auto split: sum.splits prod.splits)
  from Cons.prems(2) have "n = a \<or> n \<in> set ns" by simp
  then show ?case
  proof
    assume "n = a"
    with bind_node_can_bind[OF f] show ?thesis by simp
  next
    assume "n \<in> set ns"
    with Cons.IH[OF r] show ?thesis by simp
  qed
qed

lemma find_same:
  "list_all2 same_image xs ys \<Longrightarrow>
     rel_option same_image (find (\<lambda>i. image_path i = d) xs) (find (\<lambda>i. image_path i = d) ys)"
  by (induction rule: list_all2_induct) (auto simp: same_image_def)

lemma resolve_symbol_same:
  assumes "list_all2 same_image xs ys"
  shows "(resolve_symbol xs ds s = None) = (resolve_symbol ys ds s = None)"
proof (induction ds)
  case Nil
  then show ?case by simp
next
  case (Cons d ds)
  from find_same[OF assms, of d] show ?case
  proof (cases rule: option.rel_cases)
    case None
    with Cons show ?thesis by simp
  next
    case (Some x y)
    then have "image_binary y = image_binary x" by (simp add: same_image_def)
    with Some Cons show ?thesis by (simp split: option.splits)
  qed
qed

lemma can_bind_same:
  assumes "list_all2 same_image xs ys" and "same_image n n'"
  shows "can_bind xs n = can_bind ys n'"
proof -
  from assms(2) have b: "image_binary n' = image_binary n" by (simp add: same_image_def)
  have "entry_binds xs b x d = entry_binds ys b x d" for b x d
    using resolve_symbol_same[OF assms(1)]
    by (simp add: entry_binds_def split: fixup_kind.splits)
  then have "entry_binds xs = entry_binds ys" by (intro ext)
  then show ?thesis by (simp add: can_bind_def b)
qed

lemma same_image_refl: "list_all2 same_image xs xs"
  by (simp add: list_all2_refl same_image_def)

lemma same_image_retain: "list_all2 same_image reg (retain_image q reg)"
  by (induction reg) (simp_all add: retain_image_def same_image_def)

lemma same_image_trans:
  "list_all2 same_image xs ys \<Longrightarrow> list_all2 same_image ys zs \<Longrightarrow> list_all2 same_image xs zs"
proof (rule list_all2_trans)
  show "same_image a b \<Longrightarrow> same_image b c \<Longrightarrow> same_image a c" for a b c
    by (simp add: same_image_def)
qed

lemma same_image_fold_retain: "list_all2 same_image reg (fold retain_image qs reg)"
proof (induction qs arbitrary: reg)
  case Nil
  then show ?case by (simp add: same_image_refl)
next
  case (Cons q qs)
  from same_image_trans[OF same_image_retain Cons[of "retain_image q reg"]]
  show ?case by simp
qed

lemma bind_failure_fails:
  assumes c: "resolve_all w [] [identifier] (begin_transaction p) = Inr t0"
    and n: "n \<in> set (new_nodes t0)"
    and nb: "\<not> can_bind (new_nodes t0 @ registry p) n"
  shows "\<exists>e q t. run_transaction w p [identifier] = Inl (e, q, t)"
proof -
  from resolver_invariant(2)[of p "begin_transaction p" w "[]" "[identifier]"] txn_inv_begin[of p] c
  have i0: "txn_inv p t0" by (simp add: resolver_keeps_def)
  then have reg0: "list_all2 same_image (registry p) (registry (txn_process t0))"
    by (simp add: txn_inv_def same_image_fold_retain)
  show ?thesis
  proof (cases "run_step (map_node w) t0")
    case (Inl f)
    with c show ?thesis by (cases f) (auto simp: run_transaction_def)
  next
    case m: (Inr t1)
    show ?thesis
    proof (cases "run_step rebase_node t1")
      case (Inl f)
      with c m show ?thesis by (cases f) (auto simp: run_transaction_def)
    next
      case r: (Inr t2)
      show ?thesis
      proof (cases "bind_step t2")
        case (Inl f)
        with c m r show ?thesis by (cases f) (auto simp: run_transaction_def)
      next
        case (Inr t3)
        from run_step_nodes[OF keeps_map_node m] run_step_nodes[OF keeps_rebase_node r]
        have nodes: "list_all2 same_image (new_nodes t0) (new_nodes t2)"
          by (rule same_image_trans)
        from run_step_books(1)[OF m] run_step_books(1)[OF r]
        have "registry (txn_process t2) = registry (txn_process t0)"
          by (simp add: same_books_def)
        with reg0 nodes have all: "list_all2 same_image (new_nodes t0 @ registry p)
                                      (new_nodes t2 @ registry (txn_process t2))"
          by (simp add: list_all2_appendI)
        from n obtain i where i: "i < length (new_nodes t0)" "new_nodes t0 ! i = n"
          by (auto simp: in_set_conv_nth)
        with nodes have "i < length (new_nodes t2)" "same_image n (new_nodes t2 ! i)"
          by (auto simp: list_all2_conv_all_nth)
        then obtain n2 where n2: "n2 \<in> set (new_nodes t2)" and s: "same_image n n2"
          by (auto simp: in_set_conv_nth)
        from Inr obtain ns' m' where
          "each_node (bind_node (new_nodes t2 @ registry (txn_process t2))) (new_nodes t2)
             (memory (txn_process t2)) = Inr (ns', m')"
          by (auto simp: bind_step_def run_step_def split: sum.splits prod.splits)
        from each_node_can_bind[OF this n2]
        have "can_bind (new_nodes t2 @ registry (txn_process t2)) n2" .
        with can_bind_same[OF all s] nb show ?thesis by simp
      qed
    qed
  qed
qed

lemma run_transaction_introduced:
  assumes c: "resolve_all w [] roots (begin_transaction p) = Inr t0"
  shows "introduced (final_txn (run_transaction w p roots)) = introduced t0"
proof (cases "run_step (map_node w) t0")
  case (Inl f)
  obtain e q t' where f: "f = (e, q, t')" by (cases f)
  from run_step_books(2)[OF Inl[unfolded f]] c Inl f show ?thesis
    by (simp add: run_transaction_def final_txn_def same_books_def)
next
  case m: (Inr t1)
  from run_step_books(1)[OF m] have b1: "introduced t1 = introduced t0"
    by (simp add: same_books_def)
  show ?thesis
  proof (cases "run_step rebase_node t1")
    case (Inl f)
    obtain e q t' where f: "f = (e, q, t')" by (cases f)
    from run_step_books(2)[OF Inl[unfolded f]] c m Inl f b1 show ?thesis
      by (simp add: run_transaction_def final_txn_def same_books_def)
  next
    case r: (Inr t2)
    from run_step_books(1)[OF r] b1 have b2: "introduced t2 = introduced t0"
      by (simp add: same_books_def)
    show ?thesis
    proof (cases "bind_step t2")
      case (Inl f)
      obtain e q t' where f: "f = (e, q, t')" by (cases f)
      from run_step_books(2)[OF Inl[unfolded f bind_step_def]] c m r Inl f b2 show ?thesis
        by (simp add: run_transaction_def final_txn_def same_books_def)
    next
      case b: (Inr t3)
      from run_step_books(1)[OF b[unfolded bind_step_def]] b2 have b3: "introduced t3 = introduced t0"
        by (simp add: same_books_def)
      show ?thesis
      proof (cases "run_step (initialize_node w) t3")
        case (Inl f)
        obtain e q t' where f: "f = (e, q, t')" by (cases f)
        from run_step_books(2)[OF Inl[unfolded f]] c m r b Inl f b3 show ?thesis
          by (simp add: run_transaction_def final_txn_def same_books_def)
      next
        case (Inr t4)
        from run_step_books(1)[OF Inr] c m r b Inr b3 show ?thesis
          by (simp add: run_transaction_def final_txn_def same_books_def)
      qed
    qed
  qed
qed

lemma introduced_paths_final:
  "introduced_paths w p identifier = introduced (final_txn (run_transaction w p [identifier]))"
  by (simp add: introduced_paths_def final_txn_def split: sum.splits prod.splits)

lemma image_name_at_registered: "image_name_at p i = Some x \<Longrightarrow> registered p x"
  by (auto simp: image_name_at_def registered_def split: if_splits)

subsection \<open>The scenario of the test, run\<close>

lemma test_collect:
  "\<exists>t0. resolve_all test_world [] [''/run/liba.dylib''] (begin_transaction test_process) = Inr t0 \<and>
        new_nodes t0 = [new_image ''/run/libc.dylib'' libc, new_image ''/run/libb.dylib'' libb,
                        new_image ''/run/liba.dylib'' liba]"
  by (simp add: resolve_image.simps test_world_def test_process_def begin_transaction_def
      registered_def loaded_image_def reuse_def map_new_image_def requester_def
      liba_def libb_def libc_def retain_image_def)

lemma test_libb_cannot_bind:
  "\<not> can_bind ([new_image ''/run/libc.dylib'' libc, new_image ''/run/libb.dylib'' libb,
                  new_image ''/run/liba.dylib'' liba] @ registry test_process)
       (new_image ''/run/libb.dylib'' libb)"
  by (simp add: can_bind_def entry_binds_def new_image_def libb_def libc_def liba_def
      test_process_def loaded_image_def slot_in_segment_def)

lemma test_process_names:
  "image_count test_process = 2"
  "image_name_at test_process 0 = Some ''/run/test.exe''"
  "image_name_at test_process (Suc 0) = Some ''/usr/lib/libSystem.dylib''"
  by (simp_all add: image_count_def image_name_at_def test_process_def loaded_image_def)

section \<open>The claims\<close>

subsection \<open>Order of the steps inside the bootstrap\<close>

text \<open>
  Claim C2 says that the syscall layer is initialised only after every read-only-data
  segment has been downgraded to read-only. On the example image the log of
  \<^verbatim>\<open>rebaseDyld\<close> has \<open>MachInit\<close> at position 4 and the only downgrade after it, so
  the order claimed does not hold.
\<close>

theorem mach_init_precedes_downgrade_counterexample:
  "\<not> downgraded_before_init (protect_events example_dyld)
       (events_since boot_machine (final_rebase (rebaseDyld example_dyld boot_machine)))"
proof
  assume a: "downgraded_before_init (protect_events example_dyld)
       (events_since boot_machine (final_rebase (rebaseDyld example_dyld boot_machine)))"
  have pe: "protect_events example_dyld = [Mprotect 0x6000 0x1000 1]"
    by (simp add: protect_events_def example_dyld_def VM_PROT_READ_def)
  from a have "set [Mprotect 0x6000 0x1000 1] \<subseteq>
      set (take 4 [EnterRebaseDyld 0x1000, FixupAllChainedFixups 0x1000 0,
                   WriteSlot 0x5000 0x1020, WriteSlot 0x5008 0x1030, MachInit,
                   Mprotect 0x6000 0x1000 1])"
    unfolding downgraded_before_init_def example_events pe by (elim allE[of _ 4]) simp
  then show False by simp
qed

text \<open>
  Claim C2, amended: a call of \<^verbatim>\<open>rebaseDyld\<close> that returns has logged, in this order,
  its entry, the fixup application, the slot writes, then the initialisation of the syscall
  layer, and only then one downgrade for each read-only-data segment; a call that aborts
  never initialises the syscall layer.
\<close>

theorem mach_init_after_fixups_before_downgrade:
  "(rebaseDyld dyldMH st = Inr st' \<longrightarrow>
      (\<exists>ws. list_all is_write ws \<and>
         events_since st st' =
           [EnterRebaseDyld (loadAddress dyldMH), FixupAllChainedFixups (loadAddress dyldMH) 0]
           @ ws @ [MachInit] @ protect_events dyldMH)) \<and>
   (rebaseDyld dyldMH st = Inl (f, st') \<longrightarrow> MachInit \<notin> set (events_since st st'))"
proof (intro conjI impI)
  assume "rebaseDyld dyldMH st = Inr st'"
  from rebaseDyld_Inr_shape[OF this] show "\<exists>ws. list_all is_write ws \<and>
         events_since st st' =
           [EnterRebaseDyld (loadAddress dyldMH), FixupAllChainedFixups (loadAddress dyldMH) 0]
           @ ws @ [MachInit] @ protect_events dyldMH"
    by (auto simp: events_since_def)
next
  assume "rebaseDyld dyldMH st = Inl (f, st')"
  from rebaseDyld_Inl_shape[OF this] show "MachInit \<notin> set (events_since st st')"
    by (auto simp: events_since_def emit_def list_all_iff elim: is_write.elims)
qed

theorem mach_init_after_fixups_before_downgrade_witness:
  "(\<exists>st'. rebaseDyld example_dyld boot_machine = Inr st' \<and>
      events_since boot_machine st' =
        [EnterRebaseDyld 0x1000, FixupAllChainedFixups 0x1000 0] @
        [WriteSlot 0x5000 0x1020, WriteSlot 0x5008 0x1030] @ [MachInit] @
        [Mprotect 0x6000 0x1000 1]) \<and>
   (\<exists>f st'. rebaseDyld example_bound boot_machine = Inl (f, st') \<and>
      MachInit \<notin> set (events_since boot_machine st'))"
proof
  obtain st' where r: "rebaseDyld example_dyld boot_machine = Inr st'"
    and t: "trace st' = [EnterRebaseDyld 0x1000, FixupAllChainedFixups 0x1000 0,
                   WriteSlot 0x5000 0x1020, WriteSlot 0x5008 0x1030, MachInit,
                   Mprotect 0x6000 0x1000 1]"
    by (simp add: example_rebaseDyld)
  from mach_init_after_fixups_before_downgrade[of example_dyld boot_machine st' undefined] r
  obtain ws where "events_since boot_machine st' =
      [EnterRebaseDyld (loadAddress example_dyld),
       FixupAllChainedFixups (loadAddress example_dyld) 0]
      @ ws @ [MachInit] @ protect_events example_dyld" by blast
  with t have "events_since boot_machine st' =
       [EnterRebaseDyld 0x1000, FixupAllChainedFixups 0x1000 0] @
       [WriteSlot 0x5000 0x1020, WriteSlot 0x5008 0x1030] @ [MachInit] @
       [Mprotect 0x6000 0x1000 1]"
    by (simp add: events_since_def trace_boot_machine)
  with r show "\<exists>st'. rebaseDyld example_dyld boot_machine = Inr st' \<and>
      events_since boot_machine st' =
        [EnterRebaseDyld 0x1000, FixupAllChainedFixups 0x1000 0] @
        [WriteSlot 0x5000 0x1020, WriteSlot 0x5008 0x1030] @ [MachInit] @
        [Mprotect 0x6000 0x1000 1]" by blast
next
  from mach_init_after_fixups_before_downgrade[of example_bound boot_machine] example_bound_rebaseDyld
  show "\<exists>f st'. rebaseDyld example_bound boot_machine = Inl (f, st') \<and>
      MachInit \<notin> set (events_since boot_machine st')" by blast
qed

text \<open>
  Claim C10: in \<^verbatim>\<open>start_sim\<close> the loader global \<^verbatim>\<open>gSyscallHelpers\<close> is written, with
  the table the host supplied, before \<^verbatim>\<open>rebaseDyld\<close> is entered on the loader's own image:
  whatever the outcome, the log of \<^verbatim>\<open>start_sim\<close> begins with that write, the call of
  \<^verbatim>\<open>rebaseDyld\<close> comes next, and the global still holds the table at the end.
\<close>

theorem start_sim_writes_gSyscallHelpers_before_rebase:
  "(\<exists>rest. events_since st (final_start (start_sim dyld_main apple mainMH dyldSimMH sc pinfo st)) =
            WriteGlobal ''gSyscallHelpers'' sc # EnterRebaseDyld (loadAddress dyldSimMH) # rest) \<and>
   globals (final_start (start_sim dyld_main apple mainMH dyldSimMH sc pinfo st))
     ''gSyscallHelpers'' = sc"
proof
  from start_sim_events[of dyld_main apple mainMH dyldSimMH sc pinfo st]
  show "\<exists>rest. events_since st (final_start (start_sim dyld_main apple mainMH dyldSimMH sc pinfo st)) =
            WriteGlobal ''gSyscallHelpers'' sc # EnterRebaseDyld (loadAddress dyldSimMH) # rest"
    by (auto simp: events_since_def)
next
  let ?st = "(emit (WriteGlobal ''gSyscallHelpers'' sc) st)
               \<lparr>globals := (globals st)(''gSyscallHelpers'' := sc)\<rparr>"
  have g: "globals (final_rebase (rebaseDyld dyldSimMH ?st)) ''gSyscallHelpers'' = sc"
    by (simp add: rebaseDyld_globals)
  show "globals (final_start (start_sim dyld_main apple mainMH dyldSimMH sc pinfo st))
     ''gSyscallHelpers'' = sc"
  proof (cases "rebaseDyld dyldSimMH ?st")
    case (Inl p)
    with g show ?thesis
      by (simp add: start_sim_def Let_def final_start_def final_rebase_def)
  next
    case (Inr st1)
    with g show ?thesis
      by (simp add: start_sim_def Let_def final_start_def final_rebase_def emit_def
          guard_setup_def)
  qed
qed

text \<open>
  Claim C3 says that on every entry path \<^verbatim>\<open>rebaseDyld\<close> runs exactly once and no loader
  global is read or written before it. On the simulator's path the log before the call of
  \<^verbatim>\<open>rebaseDyld\<close> holds an access to a global.
\<close>

theorem no_global_access_before_rebase_counterexample:
  "list_ex is_global_access
     (before_rebase
        (events_since boot_machine
           (final_start
              (start_sim example_main 0 example_app example_dyld 0x7000 0x8000 boot_machine))))"
proof -
  from start_sim_events[where dm = example_main and apple = 0 and app = example_app
      and ma = example_dyld and sc = "0x7000" and pinfo = "0x8000" and st = boot_machine]
  obtain rest where
    "events_since boot_machine
       (final_start (start_sim example_main 0 example_app example_dyld 0x7000 0x8000 boot_machine)) =
     WriteGlobal ''gSyscallHelpers'' 0x7000 # EnterRebaseDyld (loadAddress example_dyld) # rest"
    by (auto simp: events_since_def)
  then show ?thesis by (simp add: before_rebase_def)
qed

text \<open>
  Claim C3, amended: on both entry paths \<^verbatim>\<open>rebaseDyld\<close> is called exactly once, whatever the
  outcome, and the image it is called on is the loader's own (\<^verbatim>\<open>dyldsMachHeader\<close> in
  \<^verbatim>\<open>start\<close>, \<^verbatim>\<open>dyldSimMH\<close> in \<^verbatim>\<open>start_sim\<close>), never the program's. In
  \<^verbatim>\<open>start\<close> only the kdebug tracepoint precedes it, so no loader global is read or
  written before it. In \<^verbatim>\<open>start_sim\<close> exactly one thing precedes it, the write of
  \<^verbatim>\<open>gSyscallHelpers\<close>; no loader global is read before it.
\<close>

theorem rebase_once_on_each_entry_path:
  "filter is_enter (events_since st (final_start (start dyld_main appMH argc argv dyldMH st))) =
     [EnterRebaseDyld (loadAddress dyldMH)] \<and>
   filter is_enter
     (events_since st (final_start (start_sim dyld_main apple appMH dyldMH sc pinfo st))) =
     [EnterRebaseDyld (loadAddress dyldMH)] \<and>
   rebase_calls (events_since st (final_start (start dyld_main appMH argc argv dyldMH st))) = 1 \<and>
   before_rebase (events_since st (final_start (start dyld_main appMH argc argv dyldMH st))) =
     [KdebugTrace] \<and>
   \<not> list_ex is_global_access
       (before_rebase (events_since st (final_start (start dyld_main appMH argc argv dyldMH st)))) \<and>
   rebase_calls
     (events_since st (final_start (start_sim dyld_main apple appMH dyldMH sc pinfo st))) = 1 \<and>
   before_rebase
     (events_since st (final_start (start_sim dyld_main apple appMH dyldMH sc pinfo st))) =
     [WriteGlobal ''gSyscallHelpers'' sc] \<and>
   \<not> list_ex is_global_read
       (before_rebase
          (events_since st (final_start (start_sim dyld_main apple appMH dyldMH sc pinfo st))))"
proof -
  from start_events[of dyld_main appMH argc argv dyldMH st] obtain r1 where
    e1: "events_since st (final_start (start dyld_main appMH argc argv dyldMH st)) =
           KdebugTrace # EnterRebaseDyld (loadAddress dyldMH) # r1"
    and n1: "\<not> list_ex is_enter r1"
    by (auto simp: events_since_def)
  from start_sim_events[of dyld_main apple appMH dyldMH sc pinfo st] obtain r2 where
    e2: "events_since st (final_start (start_sim dyld_main apple appMH dyldMH sc pinfo st)) =
           WriteGlobal ''gSyscallHelpers'' sc # EnterRebaseDyld (loadAddress dyldMH) # r2"
    and n2: "\<not> list_ex is_enter r2"
    by (auto simp: events_since_def)
  from n1 have f1: "filter is_enter r1 = []" by (simp add: list_ex_iff filter_empty_conv)
  from n2 have f2: "filter is_enter r2 = []" by (simp add: list_ex_iff filter_empty_conv)
  show ?thesis
    unfolding e1 e2 by (simp add: rebase_calls_def before_rebase_def f1 f2)
qed

subsection \<open>Preconditions and results of the self-relocation\<close>

text \<open>
  Claim C9: \<^verbatim>\<open>rebaseDyld\<close> requires an image with chained fixups. For an image without
  chained-fixups metadata the assertion stops it right after entry: nothing but the entry
  is logged, no slot is written and memory is as before, and both entry points end in that
  same abort.
\<close>

theorem rebaseDyld_aborts_without_chained_fixups:
  assumes "\<not> hasChainedFixups dyldMH"
  shows "rebaseDyld dyldMH st =
           Inl (AssertHasChainedFixups,
                st\<lparr>trace := trace st @ [EnterRebaseDyld (loadAddress dyldMH)]\<rparr>) \<and>
         start dyld_main appMH argc argv dyldMH st =
           Inl (AssertHasChainedFixups,
                st\<lparr>trace := trace st @ [KdebugTrace, EnterRebaseDyld (loadAddress dyldMH)]\<rparr>) \<and>
         start_sim dyld_main apple appMH dyldMH sc pinfo st =
           Inl (AssertHasChainedFixups,
                st\<lparr>globals := (globals st)(''gSyscallHelpers'' := sc),
                   trace := trace st @ [WriteGlobal ''gSyscallHelpers'' sc,
                                        EnterRebaseDyld (loadAddress dyldMH)]\<rparr>)"
  using assms
  by (simp add: rebaseDyld_unchained start_def start_sim_def Let_def emit_def)

theorem rebaseDyld_aborts_without_chained_fixups_witness:
  "\<not> hasChainedFixups example_unchained \<and>
   rebaseDyld example_unchained boot_machine =
     Inl (AssertHasChainedFixups, boot_machine\<lparr>trace := [EnterRebaseDyld 0x1000]\<rparr>)"
proof -
  have h: "\<not> hasChainedFixups example_unchained"
    by (simp add: hasChainedFixups_def example_unchained_def)
  have "loadAddress example_unchained = 0x1000"
    by (simp add: example_unchained_def example_dyld_def)
  with rebaseDyld_aborts_without_chained_fixups[OF h, of boot_machine] h
  show ?thesis by (simp add: trace_boot_machine)
qed

text \<open>
  Claim C7: the slide used for the loader's own image is load address minus preferred
  base. \<^verbatim>\<open>rebaseDyld\<close> hands exactly one slide to the fixup application, the load
  address itself; for an image whose preferred base is zero, as the code takes every
  image with chained fixups to be, that is load address minus preferred base.
\<close>

theorem rebaseDyld_slide_is_load_address:
  assumes "hasChainedFixups dyldMH" and "preferredLoadAddress dyldMH = 0"
  shows "fixup_slides (events_since st (final_rebase (rebaseDyld dyldMH st))) =
           [loadAddress dyldMH - preferredLoadAddress dyldMH] \<and>
         fixup_slides (events_since st (final_rebase (rebaseDyld dyldMH st))) =
           [loadAddress dyldMH]"
proof -
  have "fixup_slides (events_since st (final_rebase (rebaseDyld dyldMH st))) = [loadAddress dyldMH]"
  proof (cases "rebaseDyld dyldMH st")
    case (Inl p)
    obtain f st' where p: "p = (f, st')" by (cases p)
    from rebaseDyld_Inl_shape[OF Inl[unfolded p]] assms(1) obtain ws where
      "list_all is_write ws"
      "trace st' = trace st @ [EnterRebaseDyld (loadAddress dyldMH),
                               FixupAllChainedFixups (loadAddress dyldMH) 0] @ ws"
      by blast
    then have "fixup_slides (events_since st st') =
                 fixup_slides [EnterRebaseDyld (loadAddress dyldMH),
                               FixupAllChainedFixups (loadAddress dyldMH) 0]"
      by (simp add: events_since_def fixup_slides_append fixup_slides_writes
          del: append.simps)
    then show ?thesis
      by (simp add: Inl p final_rebase_def fixup_slides_def map_filter_def)
  next
    case (Inr st')
    from rebaseDyld_Inr_shape[OF Inr] obtain ws where
      "list_all is_write ws"
      "trace st' = trace st @ [EnterRebaseDyld (loadAddress dyldMH),
                               FixupAllChainedFixups (loadAddress dyldMH) 0] @ ws @ [MachInit]
                     @ protect_events dyldMH"
      by blast
    then have "fixup_slides (events_since st st') =
                 fixup_slides [EnterRebaseDyld (loadAddress dyldMH),
                               FixupAllChainedFixups (loadAddress dyldMH) 0]
                 @ fixup_slides [MachInit]"
      by (simp add: events_since_def fixup_slides_append fixup_slides_writes
          fixup_slides_protect del: append.simps)
    then show ?thesis
      by (simp add: Inr final_rebase_def fixup_slides_def map_filter_def)
  qed
  with assms(2) show ?thesis by simp
qed

theorem rebaseDyld_slide_is_load_address_witness:
  "hasChainedFixups example_dyld \<and> preferredLoadAddress example_dyld = 0 \<and>
   fixup_slides (events_since boot_machine (final_rebase (rebaseDyld example_dyld boot_machine))) =
     [0x1000]"
proof -
  have h1: "hasChainedFixups example_dyld"
    by (simp add: hasChainedFixups_def example_dyld_def)
  have h2: "preferredLoadAddress example_dyld = 0"
    by (simp add: example_dyld_def)
  have "loadAddress example_dyld = 0x1000"
    by (simp add: example_dyld_def)
  with rebaseDyld_slide_is_load_address[OF h1 h2, of boot_machine] h1 h2
  show ?thesis by simp
qed

text \<open>
  Claim C6: once \<^verbatim>\<open>rebaseDyld\<close> has returned, every address of every read-only-data
  segment of the loader's image has protection \<open>VM_PROT_READ\<close> and is not writable, and
  this is still so when \<^verbatim>\<open>start\<close> or \<^verbatim>\<open>start_sim\<close> hands over to \<^verbatim>\<open>dyld::_main\<close>.
\<close>

theorem readOnlyData_not_writable_after_bootstrap:
  assumes "info \<in> set (segmentInfos dyldMH)" and "readOnlyData info"
    and "a - (loadAddress dyldMH + vmAddr info) < vmSize info"
  shows "(rebaseDyld dyldMH st = Inr st1 \<longrightarrow>
            prot st1 a = VM_PROT_READ \<and> \<not> writable (prot st1 a)) \<and>
         (start dyld_main appMH argc argv dyldMH st = Inr (v, st2) \<longrightarrow>
            prot st2 a = VM_PROT_READ \<and> \<not> writable (prot st2 a)) \<and>
         (start_sim dyld_main apple appMH dyldMH sc pinfo st = Inr (v, st3) \<longrightarrow>
            prot st3 a = VM_PROT_READ \<and> \<not> writable (prot st3 a))"
proof (intro conjI impI)
  assume "rebaseDyld dyldMH st = Inr st1"
  from rebaseDyld_Inr_prot[OF this assms] show "prot st1 a = VM_PROT_READ" .
  then show "\<not> writable (prot st1 a)" by (simp add: not_writable_READ)
next
  assume "start dyld_main appMH argc argv dyldMH st = Inr (v, st2)"
  from start_Inr[OF this] obtain s1 n where
    r: "rebaseDyld dyldMH (emit KdebugTrace st) = Inr s1"
    and s: "st2 = emit (CallMain (loadAddress appMH) (getSlide appMH)) (guard_setup (Suc n) s1)"
    by blast
  from rebaseDyld_Inr_prot[OF r assms] s show p: "prot st2 a = VM_PROT_READ"
    by (simp add: emit_def guard_setup_def)
  then show "\<not> writable (prot st2 a)" by (simp add: not_writable_READ)
next
  assume "start_sim dyld_main apple appMH dyldMH sc pinfo st = Inr (v, st3)"
  from start_sim_Inr[OF this] obtain s1 where
    r: "rebaseDyld dyldMH
          ((emit (WriteGlobal ''gSyscallHelpers'' sc) st)
             \<lparr>globals := (globals st)(''gSyscallHelpers'' := sc)\<rparr>) = Inr s1"
    and s: "prot st3 = prot s1"
    by blast
  from rebaseDyld_Inr_prot[OF r assms] s show p: "prot st3 a = VM_PROT_READ" by simp
  then show "\<not> writable (prot st3 a)" by (simp add: not_writable_READ)
qed

theorem readOnlyData_not_writable_after_bootstrap_witness:
  "writable (prot boot_machine 0x6010) \<and>
   (\<exists>st1. rebaseDyld example_dyld boot_machine = Inr st1 \<and> \<not> writable (prot st1 0x6010)) \<and>
   (\<exists>v st2. start example_main example_app 1 example_argv example_dyld boot_machine = Inr (v, st2) \<and>
      \<not> writable (prot st2 0x6010)) \<and>
   (\<exists>v st3. start_sim example_main 4 example_app example_dyld 0x7000 0x8000 boot_machine
              = Inr (v, st3) \<and>
      \<not> writable (prot st3 0x6010))"
proof -
  let ?info = "\<lparr>vmAddr = 0x5000, vmSize = 0x1000, readOnlyData = True\<rparr>"
  have h1: "?info \<in> set (segmentInfos example_dyld)" by (simp add: example_dyld_def)
  have h2: "readOnlyData ?info" by simp
  have h3: "(0x6010 :: addr) - (loadAddress example_dyld + vmAddr ?info) < vmSize ?info"
    by (simp add: example_dyld_def)
  note c = readOnlyData_not_writable_after_bootstrap[OF h1 h2 h3]
  obtain st1 where r: "rebaseDyld example_dyld boot_machine = Inr st1"
    by (simp add: example_rebaseDyld)
  obtain v2 st2 where s:
    "start example_main example_app 1 example_argv example_dyld boot_machine = Inr (v2, st2)"
    using example_start_returns by blast
  obtain v3 st3 where t:
    "start_sim example_main 4 example_app example_dyld 0x7000 0x8000 boot_machine = Inr (v3, st3)"
    using example_start_sim_returns by blast
  have w: "writable (prot boot_machine 0x6010)"
    by (simp add: boot_machine_def writable_def VM_PROT_WRITE_def)
  from c[of boot_machine st1] r have "\<not> writable (prot st1 0x6010)" by blast
  moreover from c[where st = boot_machine and dyld_main = example_main and appMH = example_app
      and argc = 1 and argv = example_argv and v = v2 and ?st2.0 = st2] s
  have "\<not> writable (prot st2 0x6010)" by blast
  moreover from c[where st = boot_machine and dyld_main = example_main and appMH = example_app
      and apple = 4 and sc = "0x7000" and pinfo = "0x8000" and v = v3 and ?st3.0 = st3] t
  have "\<not> writable (prot st3 0x6010)" by blast
  ultimately show ?thesis using w r s t by blast
qed

subsection \<open>The fixup chain decoder\<close>

text \<open>
  Claim C4: after the fixups of an image loaded with slide \<open>S\<close> have been applied, the slot
  of every rebase entry with target offset \<open>T\<close>, at image base plus segment offset plus slot
  offset, holds \<open>T + S\<close>; in the bootstrap the slide is the load address. The chains
  are taken to be well formed in that they name no slot twice, neither within a segment nor
  across segments (a chain has no cycle).
\<close>

theorem rebase_slot_holds_target_plus_slide:
  assumes "distinct (slot_addresses (loadAddress ma) starts)"
    and "c \<in> set starts" and "d \<in> set (chain_entries c)" and "slot_kind d = Rebase T"
  shows "(fixupAllChainedFixups ma starts S bindTargets st = (None, st') \<longrightarrow>
            mem st' (loadAddress ma + segment_offset c + slot_offset d) = T + S) \<and>
         (chainStarts ma = Some starts \<and> rebaseDyld ma st = Inr st'' \<longrightarrow>
            mem st'' (loadAddress ma + segment_offset c + slot_offset d) = T + loadAddress ma)"
proof (intro conjI impI)
  assume "fixupAllChainedFixups ma starts S bindTargets st = (None, st')"
  then have "fixupSegments (loadAddress ma) S bindTargets Some starts
               (emit (FixupAllChainedFixups S (length bindTargets)) st) = (None, st')"
    by (simp add: fixupAllChainedFixups_def)
  from fixupSegments_mem_rebase[OF this assms]
  show "mem st' (loadAddress ma + segment_offset c + slot_offset d) = T + S" .
next
  assume a: "chainStarts ma = Some starts \<and> rebaseDyld ma st = Inr st''"
  let ?s0 = "emit (FixupAllChainedFixups (loadAddress ma) 0)
               (emit (EnterRebaseDyld (loadAddress ma)) st)"
  obtain r st1 where
    fs: "fixupSegments (loadAddress ma) (loadAddress ma) [] Some starts ?s0 = (r, st1)"
    by (cases "fixupSegments (loadAddress ma) (loadAddress ma) [] Some starts ?s0")
  from a fs have r: "r = None"
    and st'': "st'' = forEachSegment (markReadOnly ma) (segmentInfos ma) (mach_init st1)"
    by (auto simp: rebaseDyld_chained split: option.splits)
  from fixupSegments_mem_rebase[OF fs[unfolded r] assms]
  have "mem st1 (loadAddress ma + segment_offset c + slot_offset d) = T + loadAddress ma" .
  then show "mem st'' (loadAddress ma + segment_offset c + slot_offset d) = T + loadAddress ma"
    by (simp add: st'' forEachSegment_mem mach_init_def emit_def)
qed

theorem rebase_slot_holds_target_plus_slide_witness:
  "\<exists>st''. rebaseDyld example_dyld boot_machine = Inr st'' \<and>
     mem boot_machine 0x5008 = 0 \<and> mem st'' 0x5008 = 0x30 + 0x1000"
proof -
  let ?c = "\<lparr>segment_offset = 0x4000, segment_extent = 0x1000,
             chain_entries = [\<lparr>slot_offset = 0, slot_kind = Rebase 0x20\<rparr>,
                              \<lparr>slot_offset = 8, slot_kind = Rebase 0x30\<rparr>]\<rparr>"
  let ?d = "\<lparr>slot_offset = 8, slot_kind = Rebase 0x30\<rparr>"
  have cs: "chainStarts example_dyld = Some [?c]" by (simp add: example_dyld_def)
  have la: "loadAddress example_dyld = 0x1000" by (simp add: example_dyld_def)
  have h1: "distinct (slot_addresses (loadAddress example_dyld) [?c])"
    by (simp add: slot_addresses_def la)
  have h2: "?c \<in> set [?c]" by simp
  have h3: "?d \<in> set (chain_entries ?c)" by simp
  have h4: "slot_kind ?d = Rebase 0x30" by simp
  obtain st'' where r: "rebaseDyld example_dyld boot_machine = Inr st''"
    by (simp add: example_rebaseDyld)
  from rebase_slot_holds_target_plus_slide[OF h1 h2 h3 h4, where st = boot_machine and st'' = st''] cs r
  have "mem st'' (loadAddress example_dyld + segment_offset ?c + slot_offset ?d)
          = 0x30 + loadAddress example_dyld" by blast
  then have "mem st'' 0x5008 = 0x30 + 0x1000" by (simp add: la)
  moreover have "mem boot_machine 0x5008 = 0" by (simp add: boot_machine_def)
  ultimately show ?thesis using r by blast
qed

subsection \<open>Failure during the bootstrap\<close>

text \<open>
  Claim C5: \<^verbatim>\<open>rebaseDyld\<close> applies the fixup chains of the loader's own image with an
  empty table of bind targets, and a fixup error is fatal. When the chain of some segment
  does not decode against the empty table, or holds a bind entry at all, the run ends in
  the abort of \<^verbatim>\<open>assertNoError\<close>: the fixup application was called with no bind
  targets, the syscall layer is never initialised, no protection is changed, and
  \<^verbatim>\<open>start\<close> and \<^verbatim>\<open>start_sim\<close> end in the same abort without reaching
  \<^verbatim>\<open>dyld::_main\<close>.
\<close>

theorem bootstrap_fixup_error_is_fatal:
  assumes "chainStarts dyldMH = Some starts" and "c \<in> set starts"
    and "(\<exists>e. decode_chain (segment_extent c) (loadAddress dyldMH) ([] :: addr list) Some
                 (chain_entries c) = Inl e) \<or>
         (\<exists>d \<in> set (chain_entries c). \<exists>ord addend. slot_kind d = Bind ord addend)"
  shows "(\<exists>st'. rebaseDyld dyldMH st = Inl (AssertNoError MalformedFixupChain, st') \<and>
            FixupAllChainedFixups (loadAddress dyldMH) 0 \<in> set (events_since st st') \<and>
            MachInit \<notin> set (events_since st st') \<and>
            \<not> list_ex is_protect (events_since st st')) \<and>
         (\<exists>st'. start dyld_main appMH argc argv dyldMH st =
                  Inl (AssertNoError MalformedFixupChain, st')) \<and>
         (\<exists>st'. start_sim dyld_main apple appMH dyldMH sc pinfo st =
                  Inl (AssertNoError MalformedFixupChain, st'))"
proof -
  have dec: "\<exists>e. decode_chain (segment_extent c) (loadAddress dyldMH) ([] :: addr list) Some
                   (chain_entries c) = Inl e"
    using assms(3)
  proof
    assume "\<exists>d \<in> set (chain_entries c). \<exists>ord addend. slot_kind d = Bind ord addend"
    then obtain d ord addend where "d \<in> set (chain_entries c)" "slot_kind d = Bind ord addend"
      by blast
    then show ?thesis by (intro decode_chain_rejects[of d]) auto
  qed
  have aborts: "\<exists>st'. rebaseDyld dyldMH s0 = Inl (AssertNoError MalformedFixupChain, st')" for s0
  proof -
    let ?s1 = "emit (FixupAllChainedFixups (loadAddress dyldMH) 0)
                 (emit (EnterRebaseDyld (loadAddress dyldMH)) s0)"
    from dec obtain e where
      "decode_chain (segment_extent c) (loadAddress dyldMH) ([] :: addr list) Some
         (chain_entries c) = Inl e" by blast
    from fixupSegments_failure[OF assms(2) this, of "loadAddress dyldMH" ?s1]
    obtain e' st' where
      f: "fixupSegments (loadAddress dyldMH) (loadAddress dyldMH) [] Some starts ?s1 = (Some e', st')"
      by blast
    from fixupSegments_no_targets_failure[OF f] have "e' = MalformedFixupChain" .
    with f assms(1) show ?thesis by (simp add: rebaseDyld_chained)
  qed
  have hc: "hasChainedFixups dyldMH" using assms(1) by (simp add: hasChainedFixups_def)
  from aborts[of st] obtain st' where
    r: "rebaseDyld dyldMH st = Inl (AssertNoError MalformedFixupChain, st')" by blast
  from rebaseDyld_Inl_shape[OF r] obtain ws where
    ws: "list_all is_write ws"
        "trace st' = trace st @ [EnterRebaseDyld (loadAddress dyldMH),
                                 FixupAllChainedFixups (loadAddress dyldMH) 0] @ ws"
    by auto
  then have ev: "events_since st st' =
      [EnterRebaseDyld (loadAddress dyldMH), FixupAllChainedFixups (loadAddress dyldMH) 0] @ ws"
    by (simp add: events_since_def)
  have "\<not> is_protect x \<and> x \<noteq> MachInit" if "is_write x" for x
    using that by (cases x) simp_all
  with ws(1) have "MachInit \<notin> set ws" and "\<not> list_ex is_protect ws"
    by (auto simp: list_all_iff list_ex_iff)
  with ev r have first: "\<exists>st'. rebaseDyld dyldMH st = Inl (AssertNoError MalformedFixupChain, st') \<and>
            FixupAllChainedFixups (loadAddress dyldMH) 0 \<in> set (events_since st st') \<and>
            MachInit \<notin> set (events_since st st') \<and>
            \<not> list_ex is_protect (events_since st st')"
    by auto
  from aborts[of "emit KdebugTrace st"]
  have second: "\<exists>st'. start dyld_main appMH argc argv dyldMH st =
                  Inl (AssertNoError MalformedFixupChain, st')"
    by (auto simp: start_def)
  from aborts[of "(emit (WriteGlobal ''gSyscallHelpers'' sc) st)
                    \<lparr>globals := (globals st)(''gSyscallHelpers'' := sc)\<rparr>"]
  have third: "\<exists>st'. start_sim dyld_main apple appMH dyldMH sc pinfo st =
                  Inl (AssertNoError MalformedFixupChain, st')"
    by (auto simp: start_sim_def Let_def)
  from first second third show ?thesis by blast
qed

theorem bootstrap_fixup_error_is_fatal_witness:
  "rebaseDyld example_bound boot_machine =
     Inl (AssertNoError MalformedFixupChain,
          boot_machine\<lparr>trace := [EnterRebaseDyld 0x1000, FixupAllChainedFixups 0x1000 0]\<rparr>) \<and>
   (\<exists>st'. start example_main example_app 1 example_argv example_bound boot_machine =
            Inl (AssertNoError MalformedFixupChain, st'))"
proof -
  let ?c = "\<lparr>segment_offset = 0x4000, segment_extent = 0x1000,
             chain_entries = [\<lparr>slot_offset = 0, slot_kind = Rebase 0x20\<rparr>,
                              \<lparr>slot_offset = 8, slot_kind = Bind 0 0\<rparr>]\<rparr>"
  have h1: "chainStarts example_bound = Some [?c]"
    by (simp add: example_bound_def)
  have h2: "?c \<in> set [?c]" by simp
  have h3: "(\<exists>e. decode_chain (segment_extent ?c) (loadAddress example_bound) ([] :: addr list)
                   Some (chain_entries ?c) = Inl e) \<or>
            (\<exists>d \<in> set (chain_entries ?c). \<exists>ord addend. slot_kind d = Bind ord addend)"
    by simp
  from bootstrap_fixup_error_is_fatal[OF h1 h2 h3, where st = boot_machine
      and dyld_main = example_main and appMH = example_app and argc = 1 and argv = example_argv]
  have "\<exists>st'. start example_main example_app 1 example_argv example_bound boot_machine =
            Inl (AssertNoError MalformedFixupChain, st')" by blast
  with example_bound_rebaseDyld show ?thesis by blast
qed

subsection \<open>A load that fails leaves no trace\<close>

text \<open>
  Claim C1: when the dependency graph collected for a load attempt contains an image that
  cannot bind, \<open>load\<close> with the must-resolve-now flag returns a failure and no handle;
  \<open>image_count\<close> is what it was before the attempt; \<open>image_name_at\<close> answers as before
  at every index, and at no index with a path the failed attempt introduced, of which the
  path of the image that cannot bind is one. Registry and resident images are those from
  before the attempt.
\<close>

theorem load_fails_cleanly:
  assumes "resolve_all w [] [identifier] (begin_transaction p) = Inr t0"
    and "n \<in> set (new_nodes t0)"
    and "\<not> can_bind (new_nodes t0 @ registry p) n"
  shows "(\<exists>e q. fst (load w p identifier) = Failed e q) \<and>
         image_count (snd (load w p identifier)) = image_count p \<and>
         (\<forall>i. image_name_at (snd (load w p identifier)) i = image_name_at p i) \<and>
         (\<forall>i. \<forall>x \<in> set (introduced_paths w p identifier).
            image_name_at (snd (load w p identifier)) i \<noteq> Some x) \<and>
         image_path n \<in> set (introduced_paths w p identifier) \<and>
         registry (snd (load w p identifier)) = registry p \<and>
         resident (snd (load w p identifier)) = resident p"
proof -
  from bind_failure_fails[OF assms] obtain e q t where
    rt: "run_transaction w p [identifier] = Inl (e, q, t)" by blast
  then have failed: "fst (load w p identifier) = Failed e q" by (simp add: load_def)
  note clean = load_failure_clean[OF failed]
  have names: "image_name_at (snd (load w p identifier)) i = image_name_at p i" for i
    by (simp add: image_name_at_def clean(1))
  have fresh: "image_name_at (snd (load w p identifier)) i \<noteq> Some x"
    if "x \<in> set (introduced_paths w p identifier)" for i x
  proof
    assume "image_name_at (snd (load w p identifier)) i = Some x"
    then have "registered p x" by (simp add: names image_name_at_registered)
    with clean(3) that show False by blast
  qed
  from resolver_invariant(2)[of p "begin_transaction p" w "[]" "[identifier]"]
    txn_inv_begin[of p] assms(1)
  have "txn_inv p t0" by (simp add: resolver_keeps_def)
  with assms(2) have "image_path n \<in> set (introduced t0)" by (auto simp: txn_inv_def)
  then have mine: "image_path n \<in> set (introduced_paths w p identifier)"
    by (simp add: introduced_paths_final run_transaction_introduced[OF assms(1)])
  from failed names fresh mine clean(1,2) show ?thesis
    by (simp add: image_count_def)
qed

theorem load_fails_cleanly_witness:
  "(\<exists>e q. fst (load test_world test_process ''/run/liba.dylib'') = Failed e q) \<and>
   image_count (snd (load test_world test_process ''/run/liba.dylib'')) = 2 \<and>
   ''/run/libb.dylib'' \<in> set (introduced_paths test_world test_process ''/run/liba.dylib'') \<and>
   main test_world test_process ''/run'' = PASS ''Success''"
proof -
  from test_collect obtain t0 where
    h1: "resolve_all test_world [] [''/run/liba.dylib''] (begin_transaction test_process) = Inr t0"
    and nodes: "new_nodes t0 = [new_image ''/run/libc.dylib'' libc,
                               new_image ''/run/libb.dylib'' libb,
                               new_image ''/run/liba.dylib'' liba]"
    by blast
  have h2: "new_image ''/run/libb.dylib'' libb \<in> set (new_nodes t0)" by (simp add: nodes)
  have h3: "\<not> can_bind (new_nodes t0 @ registry test_process) (new_image ''/run/libb.dylib'' libb)"
    unfolding nodes by (rule test_libb_cannot_bind)
  note c = load_fails_cleanly[OF h1 h2 h3]
  let ?r = "load test_world test_process ''/run/liba.dylib''"
  from c obtain e q where failed: "fst ?r = Failed e q" by blast
  from c have count: "image_count (snd ?r) = 2" by (simp add: test_process_names)
  from c have names: "image_name_at (snd ?r) i = image_name_at test_process i" for i by blast
  from c have mine: "''/run/libb.dylib'' \<in> set (introduced_paths test_world test_process ''/run/liba.dylib'')"
    by (simp add: new_image_def)
  have up: "[0 ..< 2] = [0, Suc 0]" by (simp add: upt_rec)
  from failed obtain p' where r: "?r = (Failed e q, p')" by (cases ?r) simp
  from count names r have "image_count p' = 2"
    and "image_name_at p' i = image_name_at test_process i" for i
    by simp_all
  then have "main test_world test_process ''/run'' = PASS ''Success''"
    using r by (simp add: main_def up test_process_names)
  with failed count mine show ?thesis by blast
qed

end
